theory Spec2Isabelle
  imports Main "HOL-Library.Word"
begin

unbundle bit_operations_syntax

section \<open>Monomial search in the product of two packed monomial arrays\<close>

text \<open>
  A shallow embedding of \<^verbatim>\<open>fmpz_mpoly_search_monomials\<close>
  (\<^verbatim>\<open>src/mpoly/search_monomials.c\<close>).

  \<^item> \<^verbatim>\<open>ulong\<close> is a 64-bit word; \<^verbatim>\<open>slong\<close> values (scores, lengths and row
    frontiers) are integers.  Signed overflow is undefined in C and the compiled code
    wraps around; the wrap-around is written out (\<open>slong\<close>) wherever the loop body
    computes with what it has read from the frontier arrays, which can hold any machine
    integer: the gaps (line 93), the bisector (line 129), the start of the scan of a row
    (line 152) and the score of the new candidate (lines 144, 161 and 179).  The product
    of the lengths (line 54), the loop counters, which index an array in the access
    before they are stepped, and the two distances of line 214 are exact, which is what
    the compiled code computes as long as these results fit a machine word.
  \<^item> Every array lives in an explicit store.  The pointer variables of the source
    (\<^verbatim>\<open>fexp\<close>, \<^verbatim>\<open>gexp\<close>, \<^verbatim>\<open>hexp\<close>, \<^verbatim>\<open>find\<close>, \<^verbatim>\<open>gind\<close>, \<^verbatim>\<open>hind\<close>) hold buffer names,
    so that the pointer rotation at the end of the loop body, with whatever
    aliasing it creates, is part of the model.
  \<^item> A failed \<^verbatim>\<open>assert\<close> and an access outside an array are error results.
  \<^item> \<^verbatim>\<open>flint_malloc\<close> returns memory with unspecified contents: the contents are
    parameters (\<open>wjunk\<close> for word buffers, \<open>ijunk\<close> for index buffers).
  \<^item> The source writes \<^verbatim>\<open>i < a_len, i++\<close>, \<^verbatim>\<open>j >= find[i], j--\<close> and
    \<^verbatim>\<open>j < gind[i], j++\<close> in three loop headers and uses \<^verbatim>\<open>x\<close> and \<^verbatim>\<open>j\<close> without
    declaring them; the model reads the commas as semicolons and the two variables
    as \<^verbatim>\<open>slong\<close> locals.
\<close>

subsection \<open>Data\<close>

type_synonym ulong = "64 word"

datatype error = Assertion_failed | Out_of_bounds

text \<open>Word buffers: the caller's \<^verbatim>\<open>a\<close>, \<^verbatim>\<open>b\<close> and \<^verbatim>\<open>e\<close>, and the four allocated ones,
  named after the variable that first receives them.\<close>

datatype wptr = Buf_a | Buf_b | Buf_e | Buf_fexp | Buf_gexp | Buf_hexp | Buf_temp

text \<open>Index buffers, named in the same way.\<close>

datatype iptr = Buf_find | Buf_gind | Buf_hind

record state =
  wmem :: "wptr \<Rightarrow> ulong list"
  imem :: "iptr \<Rightarrow> int list"
  fexp :: wptr
  gexp :: wptr
  hexp :: wptr
  find_i :: iptr
  gind :: iptr
  hind :: iptr
  fscore :: int
  gscore :: int
  hscore :: int
  e_score :: int

datatype 'a flow = Break 'a | Continue 'a

subsection \<open>Sequencing of fallible steps\<close>

definition ebind :: "error + 'a \<Rightarrow> ('a \<Rightarrow> error + 'b) \<Rightarrow> error + 'b" where
  "ebind m f = (case m of Inl err \<Rightarrow> Inl err | Inr x \<Rightarrow> f x)"

lemma ebind_simps [simp]:
  "ebind (Inl err) f = Inl err"
  "ebind (Inr x) f = f x"
  by (simp_all add: ebind_def)

lemma ebind_cong [fundef_cong]:
  "m = m' \<Longrightarrow> (\<And>x. m' = Inr x \<Longrightarrow> f x = f' x) \<Longrightarrow> ebind m f = ebind m' f'"
  by (simp add: ebind_def split: sum.splits)

lemma ebind_eq_Inr:
  "ebind m f = Inr y \<longleftrightarrow> (\<exists>x. m = Inr x \<and> f x = Inr y)"
  by (cases m) simp_all

text \<open>\<^verbatim>\<open>for (i = i0; i < n; i++) body\<close> and \<^verbatim>\<open>for (i = i0; i >= 0; i--) body\<close>,
  for bodies without \<^verbatim>\<open>break\<close>.\<close>

function for_up :: "int \<Rightarrow> int \<Rightarrow> (int \<Rightarrow> 's \<Rightarrow> error + 's) \<Rightarrow> 's \<Rightarrow> error + 's" where
  "for_up i n body s = (if i < n then ebind (body i s) (for_up (i + 1) n body) else Inr s)"
  by pat_completeness auto
termination
  by (relation "measure (\<lambda>(i, n, body, s). nat (n - i))") auto

function for_down :: "int \<Rightarrow> (int \<Rightarrow> 's \<Rightarrow> error + 's) \<Rightarrow> 's \<Rightarrow> error + 's" where
  "for_down i body s = (if i \<ge> 0 then ebind (body i s) (for_down (i - 1) body) else Inr s)"
  by pat_completeness auto
termination
  by (relation "measure (\<lambda>(i, body, s). nat (i + 1))") auto

declare for_up.simps [simp del] for_down.simps [simp del]

subsection \<open>Machine integers\<close>

text \<open>The value of an \<^verbatim>\<open>slong\<close> expression whose exact result is \<open>k\<close>, as the compiled code
  computes it: \<open>k\<close> reduced to 64 bits in two's complement.\<close>

definition slong :: "int \<Rightarrow> int" where
  "slong k = (k + 2 ^ 63) mod 2 ^ 64 - 2 ^ 63"

subsection \<open>Memory access\<close>

text \<open>C integer division truncates towards zero.\<close>

definition c_div :: "int \<Rightarrow> int \<Rightarrow> int" where
  "c_div k l = sgn k * sgn l * (\<bar>k\<bar> div \<bar>l\<bar>)"

definition FLINT_BITS :: int where
  "FLINT_BITS = 64"

text \<open>\<^verbatim>\<open>flint_malloc(n * sizeof(...))\<close>: \<open>n\<close> cells holding whatever was there.\<close>

definition flint_malloc :: "(nat \<Rightarrow> 'a) \<Rightarrow> int \<Rightarrow> 'a list" where
  "flint_malloc junk n = map junk [0..<nat n]"

text \<open>Reading and writing \<open>N\<close> consecutive words at a word offset of a buffer.\<close>

definition load :: "state \<Rightarrow> wptr \<Rightarrow> int \<Rightarrow> int \<Rightarrow> error + ulong list" where
  "load s p off N =
     (if N \<le> 0 then Inr []
      else if 0 \<le> off \<and> off + N \<le> int (length (wmem s p))
      then Inr (take (nat N) (drop (nat off) (wmem s p)))
      else Inl Out_of_bounds)"

definition store :: "state \<Rightarrow> wptr \<Rightarrow> ulong list \<Rightarrow> error + state" where
  "store s p ws =
     (if length ws \<le> length (wmem s p)
      then Inr (s\<lparr>wmem := (wmem s)(p := ws @ drop (length ws) (wmem s p))\<rparr>)
      else Inl Out_of_bounds)"

definition ind_get :: "state \<Rightarrow> iptr \<Rightarrow> int \<Rightarrow> error + int" where
  "ind_get s p i =
     (if 0 \<le> i \<and> i < int (length (imem s p)) then Inr (imem s p ! nat i)
      else Inl Out_of_bounds)"

definition ind_set :: "state \<Rightarrow> iptr \<Rightarrow> int \<Rightarrow> int \<Rightarrow> error + state" where
  "ind_set s p i v =
     (if 0 \<le> i \<and> i < int (length (imem s p))
      then Inr (s\<lparr>imem := (imem s)(p := (imem s p)[nat i := v])\<rparr>)
      else Inl Out_of_bounds)"

subsection \<open>Packed monomial primitives\<close>

text \<open>Modelled from the spec: \<^verbatim>\<open>mpoly.h\<close>, which declares \<^verbatim>\<open>mpoly_monomial_add\<close>,
  \<^verbatim>\<open>mpoly_monomial_eq\<close>, \<^verbatim>\<open>mpoly_monomial_set\<close> and \<^verbatim>\<open>mpoly_monomial_lt\<close>, is not among
  the sources.  The spec gives \<open>add(dst, x, y, N)\<close> as the elementwise packed sum,
  \<open>equal(x, y, N)\<close> as equality of the packed words and \<open>copy(dst, src, N)\<close>.  The
  comparison \<open>less_than(x, y, N, maskhi, masklo)\<close> is a parameter \<open>lt\<close> of everything
  below.\<close>

definition mpoly_monomial_add :: "state \<Rightarrow> wptr \<Rightarrow> wptr \<times> int \<Rightarrow> wptr \<times> int \<Rightarrow> int \<Rightarrow> error + state" where
  "mpoly_monomial_add s dst x y N =
     ebind (load s (fst x) (snd x) N) (\<lambda>xs.
     ebind (load s (fst y) (snd y) N) (\<lambda>ys.
     store s dst (map2 (+) xs ys)))"

definition mpoly_monomial_eq :: "state \<Rightarrow> wptr \<Rightarrow> wptr \<Rightarrow> int \<Rightarrow> error + bool" where
  "mpoly_monomial_eq s x y N =
     ebind (load s x 0 N) (\<lambda>xs.
     ebind (load s y 0 N) (\<lambda>ys. Inr (xs = ys)))"

definition mpoly_monomial_set :: "state \<Rightarrow> wptr \<Rightarrow> wptr \<Rightarrow> int \<Rightarrow> error + state" where
  "mpoly_monomial_set s dst x N = ebind (load s x 0 N) (\<lambda>xs. store s dst xs)"

type_synonym less_than = "ulong list \<Rightarrow> ulong list \<Rightarrow> int \<Rightarrow> ulong \<Rightarrow> ulong \<Rightarrow> bool"

definition mpoly_monomial_lt :: "less_than \<Rightarrow> state \<Rightarrow> wptr \<Rightarrow> wptr \<Rightarrow> int \<Rightarrow> ulong \<Rightarrow> ulong \<Rightarrow> error + bool" where
  "mpoly_monomial_lt lt s x y N maskhi masklo =
     ebind (load s x 0 N) (\<lambda>xs.
     ebind (load s y 0 N) (\<lambda>ys. Inr (lt xs ys N maskhi masklo)))"

subsection \<open>Set-up (source lines 48--75)\<close>

definition word_set :: "state \<Rightarrow> wptr \<Rightarrow> int \<Rightarrow> ulong \<Rightarrow> error + state" where
  "word_set s p i v =
     (if 0 \<le> i \<and> i < int (length (wmem s p))
      then Inr (s\<lparr>wmem := (wmem s)(p := (wmem s p)[nat i := v])\<rparr>)
      else Inl Out_of_bounds)"

text \<open>The caller's memory at entry.  No allocation has happened yet; the pointer and
  score variables are assigned before they are first read.\<close>

definition entry_state :: "ulong list \<Rightarrow> int \<Rightarrow> ulong list \<Rightarrow> ulong list \<Rightarrow> state" where
  "entry_state e e_score_in a b =
     \<lparr>wmem = (\<lambda>p. [])(Buf_a := a, Buf_b := b, Buf_e := e), imem = (\<lambda>p. []),
      fexp = Buf_fexp, gexp = Buf_gexp, hexp = Buf_hexp,
      find_i = Buf_find, gind = Buf_gind, hind = Buf_hind,
      fscore = 0, gscore = 0, hscore = 0, e_score = e_score_in\<rparr>"

definition malloc_words :: "(wptr \<Rightarrow> nat \<Rightarrow> ulong) \<Rightarrow> wptr \<Rightarrow> int \<Rightarrow> state \<Rightarrow> state" where
  "malloc_words wjunk p n s = s\<lparr>wmem := (wmem s)(p := flint_malloc (wjunk p) n)\<rparr>"

definition malloc_inds :: "(iptr \<Rightarrow> nat \<Rightarrow> int) \<Rightarrow> iptr \<Rightarrow> int \<Rightarrow> state \<Rightarrow> state" where
  "malloc_inds ijunk p n s = s\<lparr>imem := (imem s)(p := flint_malloc (ijunk p) n)\<rparr>"

text \<open>Lines 53--75.  The two loops after the allocation of \<^verbatim>\<open>gind\<close> write \<^verbatim>\<open>gexp\<close> and
  \<^verbatim>\<open>find\<close>, as the source has them.\<close>

definition set_up ::
  "(wptr \<Rightarrow> nat \<Rightarrow> ulong) \<Rightarrow> (iptr \<Rightarrow> nat \<Rightarrow> int) \<Rightarrow> int \<Rightarrow> int \<Rightarrow> int \<Rightarrow> state \<Rightarrow> error + state" where
  "set_up wjunk ijunk a_len b_len N s0 =
     (let s = s0\<lparr>fscore := a_len * b_len\<rparr>;
          s = (malloc_words wjunk Buf_fexp N s)\<lparr>fexp := Buf_fexp\<rparr>;
          s = (malloc_inds ijunk Buf_find a_len s)\<lparr>find_i := Buf_find\<rparr>
      in
      ebind (mpoly_monomial_add s (fexp s) (Buf_a, 0 * N) (Buf_b, 0 * N) N) (\<lambda>s.
      ebind (for_up 0 a_len (\<lambda>i s. ind_set s (find_i s) i 0) s) (\<lambda>s.
      let s = s\<lparr>gscore := 1\<rparr>;
          s = (malloc_words wjunk Buf_gexp N s)\<lparr>gexp := Buf_gexp\<rparr>;
          s = (malloc_inds ijunk Buf_gind a_len s)\<lparr>gind := Buf_gind\<rparr>
      in
      ebind (mpoly_monomial_add s (gexp s) (Buf_a, (a_len - 1) * N) (Buf_b, (b_len - 1) * N) N) (\<lambda>s.
      ebind (for_up 0 N (\<lambda>i s. word_set s (gexp s) i 0) s) (\<lambda>s.
      ebind (for_up 0 a_len (\<lambda>i s. ind_set s (find_i s) i b_len) s) (\<lambda>s.
      ebind (ind_set s (find_i s) (a_len - 1) (b_len - 1)) (\<lambda>s.
      let s = (malloc_words wjunk Buf_hexp N s)\<lparr>hexp := Buf_hexp\<rparr>;
          s = (malloc_inds ijunk Buf_hind a_len s)\<lparr>hind := Buf_hind\<rparr>;
          s = malloc_words wjunk Buf_temp N s
      in Inr s)))))))"

subsection \<open>Pivot selection (source lines 88--130)\<close>

text \<open>Lines 91--98: one row of the search for the largest gap.  The pair is
  \<open>(maxdiff, maxind)\<close>.\<close>

definition maxdiff_step :: "state \<Rightarrow> int \<Rightarrow> int \<times> int \<Rightarrow> error + int \<times> int" where
  "maxdiff_step s i mm =
     ebind (ind_get s (gind s) i) (\<lambda>g.
     ebind (ind_get s (find_i s) i) (\<lambda>f.
     if fst mm < slong (g - f) then Inr (slong (g - f), - 1) else Inr mm))"

text \<open>Lines 109--121: one row of the scan made when the largest gap is 1.  The pair is
  \<open>(maxind, state)\<close>.\<close>

definition gap_one_step :: "int \<Rightarrow> int \<Rightarrow> int \<times> state \<Rightarrow> error + int \<times> state" where
  "gap_one_step N i ms =
     (let s = snd ms in
      ebind (ind_get s (gind s) i) (\<lambda>g.
      ebind (ind_get s (find_i s) i) (\<lambda>f.
      if g > f then
        ebind (mpoly_monomial_add s Buf_temp (Buf_a, i * N) (Buf_b, f * N) N) (\<lambda>s.
        ebind (mpoly_monomial_eq s Buf_temp (fexp s) N) (\<lambda>same.
        if \<not> same then
          ebind (ind_get s (find_i s) i) (\<lambda>f.
          ebind (ind_set s (hind s) i f) (\<lambda>s.
          ebind (ind_get s (hind s) i) (\<lambda>h.
          ebind (mpoly_monomial_add s (hexp s) (Buf_a, i * N) (Buf_b, h * N) N) (\<lambda>s.
          Inr (i, s)))))
        else Inr (fst ms, s)))
      else Inr ms)))"

text \<open>Line 129.\<close>

definition bisect :: "int \<Rightarrow> state \<Rightarrow> error + state" where
  "bisect maxind s =
     ebind (ind_get s (gind s) maxind) (\<lambda>g.
     ebind (ind_get s (find_i s) maxind) (\<lambda>f.
     ind_set s (hind s) maxind (c_div (slong (g + f)) 2)))"

text \<open>Lines 88--130: \<open>Break\<close> is one of the two \<^verbatim>\<open>break\<close> statements, \<open>Continue\<close>
  carries \<open>maxind\<close> on to line 136.\<close>

definition select_pivot :: "int \<Rightarrow> int \<Rightarrow> state \<Rightarrow> error + (int \<times> state) flow" where
  "select_pivot N a_len s =
     ebind (for_up 0 a_len (maxdiff_step s) (- 1, - 1)) (\<lambda>mm.
     if fst mm = 0 then Inr (Break (snd mm, s))
     else if fst mm = 1 then
       ebind (for_up 0 a_len (gap_one_step N) (- 1, s)) (\<lambda>ms.
       if fst ms = - 1 then Inr (Break ms) else Inr (Continue ms))
     else
       ebind (bisect (snd mm) s) (\<lambda>s. Inr (Continue (snd mm, s))))"

subsection \<open>The frontier of the new candidate (source lines 136--180)\<close>

lemma mpoly_monomial_add_frame:
  "mpoly_monomial_add s dst x y N = Inr s' \<Longrightarrow> \<exists>w. s' = s\<lparr>wmem := w\<rparr>"
  by (auto simp: mpoly_monomial_add_def store_def ebind_eq_Inr split: if_splits)

text \<open>Lines 152--159: the inner loop of a row to the right of the pivot.  The pair is
  \<open>(x, state)\<close>; the loop condition reads \<^verbatim>\<open>find[i]\<close> each time round.\<close>

function right_scan ::
  "less_than \<Rightarrow> int \<Rightarrow> ulong \<Rightarrow> ulong \<Rightarrow> int \<Rightarrow> int \<Rightarrow> int \<times> state \<Rightarrow> error + int \<times> state" where
  "right_scan lt N maskhi masklo i j xs =
     ebind (ind_get (snd xs) (find_i (snd xs)) i) (\<lambda>f.
     if j \<ge> f then
       ebind (mpoly_monomial_add (snd xs) Buf_temp (Buf_a, i * N) (Buf_b, j * N) N) (\<lambda>s.
       ebind (mpoly_monomial_lt lt s Buf_temp (hexp s) N maskhi masklo) (\<lambda>c.
       if c then right_scan lt N maskhi masklo i (j - 1) (j + 1, s)
       else Inr (fst xs, s)))
     else Inr xs)"
  by pat_completeness auto
termination
proof (relation "measure (\<lambda>(lt, N, maskhi, masklo, i, j, xs).
    nat (j + 1 - (case ind_get (snd xs) (find_i (snd xs)) i of Inr f \<Rightarrow> f | Inl err \<Rightarrow> j + 1)))",
    goal_cases)
  case 1
  show ?case by simp
next
  case (2 lt N maskhi masklo i j xs f s c)
  from 2(3) obtain w where "s = (snd xs)\<lparr>wmem := w\<rparr>"
    using mpoly_monomial_add_frame by blast
  then have "ind_get s (find_i s) i = ind_get (snd xs) (find_i (snd xs)) i"
    by (simp add: ind_get_def)
  with 2(1,2) show ?case by simp
qed

text \<open>Lines 170--177: the inner loop of a row to the left of the pivot.\<close>

function left_scan ::
  "less_than \<Rightarrow> int \<Rightarrow> ulong \<Rightarrow> ulong \<Rightarrow> int \<Rightarrow> int \<Rightarrow> int \<times> state \<Rightarrow> error + int \<times> state" where
  "left_scan lt N maskhi masklo i j xs =
     ebind (ind_get (snd xs) (gind (snd xs)) i) (\<lambda>g.
     if j < g then
       ebind (mpoly_monomial_add (snd xs) Buf_temp (Buf_a, i * N) (Buf_b, j * N) N) (\<lambda>s.
       ebind (mpoly_monomial_lt lt s Buf_temp (hexp s) N maskhi masklo) (\<lambda>c.
       if c then left_scan lt N maskhi masklo i (j + 1) (j + 1, s)
       else Inr (fst xs, s)))
     else Inr xs)"
  by pat_completeness auto
termination
proof (relation "measure (\<lambda>(lt, N, maskhi, masklo, i, j, xs).
    nat ((case ind_get (snd xs) (gind (snd xs)) i of Inr g \<Rightarrow> g | Inl err \<Rightarrow> j) - j))",
    goal_cases)
  case 1
  show ?case by simp
next
  case (2 lt N maskhi masklo i j xs g s c)
  from 2(3) obtain w where "s = (snd xs)\<lparr>wmem := w\<rparr>"
    using mpoly_monomial_add_frame by blast
  then have "ind_get s (gind s) i = ind_get (snd xs) (gind (snd xs)) i"
    by (simp add: ind_get_def)
  with 2(1,2) show ?case by simp
qed

declare right_scan.simps [simp del] left_scan.simps [simp del]

text \<open>Lines 151--161: one row to the right of the pivot.\<close>

definition right_row :: "less_than \<Rightarrow> int \<Rightarrow> ulong \<Rightarrow> ulong \<Rightarrow> int \<Rightarrow> state \<Rightarrow> error + state" where
  "right_row lt N maskhi masklo i s =
     ebind (ind_get s (find_i s) i) (\<lambda>x.
     ebind (ind_get s (hind s) (i - 1)) (\<lambda>h.
     ebind (ind_get s (gind s) i) (\<lambda>g.
     ebind (right_scan lt N maskhi masklo i (slong (min h g - 1)) (x, s)) (\<lambda>xs.
     ebind (ind_set (snd xs) (hind (snd xs)) i (fst xs)) (\<lambda>s.
     ebind (ind_get s (gind s) i) (\<lambda>g.
     ebind (ind_get s (hind s) i) (\<lambda>h.
     Inr (s\<lparr>hscore := slong (hscore s + slong (g - h))\<rparr>))))))))"

text \<open>Lines 169--179: one row to the left of the pivot.\<close>

definition left_row :: "less_than \<Rightarrow> int \<Rightarrow> ulong \<Rightarrow> ulong \<Rightarrow> int \<Rightarrow> state \<Rightarrow> error + state" where
  "left_row lt N maskhi masklo i s =
     ebind (ind_get s (hind s) (i + 1)) (\<lambda>h.
     ebind (ind_get s (find_i s) i) (\<lambda>f.
     ebind (left_scan lt N maskhi masklo i (max h f) (max h f, s)) (\<lambda>xs.
     ebind (ind_set (snd xs) (hind (snd xs)) i (fst xs)) (\<lambda>s.
     ebind (ind_get s (gind s) i) (\<lambda>g.
     ebind (ind_get s (hind s) i) (\<lambda>h.
     Inr (s\<lparr>hscore := slong (hscore s + slong (g - h))\<rparr>)))))))"

definition assert :: "bool \<Rightarrow> error + unit" where
  "assert c = (if c then Inr () else Inl Assertion_failed)"

text \<open>Lines 136--180.\<close>

definition frontier ::
  "less_than \<Rightarrow> int \<Rightarrow> ulong \<Rightarrow> ulong \<Rightarrow> int \<Rightarrow> int \<Rightarrow> state \<Rightarrow> error + state" where
  "frontier lt N maskhi masklo a_len maxind s =
     ebind (ind_get s (hind s) maxind) (\<lambda>h.
     ebind (mpoly_monomial_add s (hexp s) (Buf_a, maxind * N) (Buf_b, h * N) N) (\<lambda>s.
     ebind (mpoly_monomial_lt lt s (fexp s) (hexp s) N maskhi masklo) (\<lambda>c.
     ebind (assert c) (\<lambda>_.
     ebind (mpoly_monomial_lt lt s (hexp s) (gexp s) N maskhi masklo) (\<lambda>c.
     ebind (assert c) (\<lambda>_.
     ebind (ind_get s (gind s) maxind) (\<lambda>g.
     ebind (ind_get s (hind s) maxind) (\<lambda>h.
     let s = s\<lparr>hscore := slong (slong (gscore s + g) - h)\<rparr> in
     ebind (for_up (maxind + 1) a_len (right_row lt N maskhi masklo) s) (\<lambda>s.
     for_down (maxind - 1) (left_row lt N maskhi masklo) s)))))))))"

subsection \<open>Bracket update (source lines 183--192)\<close>

definition rotate :: "int \<Rightarrow> state \<Rightarrow> state" where
  "rotate upper s =
     (if hscore s \<le> upper then
        (let tind = gind s; tscore = gscore s; texp = gexp s;
             s = s\<lparr>gind := hind s, gscore := hscore s, gexp := hexp s\<rparr>
         in s\<lparr>hind := tind, hscore := tscore, hexp := texp\<rparr>)
      else
        (let tind = gind s; tscore = gscore s; texp = gexp s;
             s = s\<lparr>find_i := hind s, fscore := hscore s, fexp := hexp s\<rparr>
         in s\<lparr>hind := tind, hscore := tscore, hexp := texp\<rparr>))"

subsection \<open>Main loop and final selection (source lines 86--221)\<close>

definition loop_body ::
  "less_than \<Rightarrow> int \<Rightarrow> ulong \<Rightarrow> ulong \<Rightarrow> int \<Rightarrow> int \<Rightarrow> state \<Rightarrow> error + state flow" where
  "loop_body lt N maskhi masklo a_len upper s =
     ebind (select_pivot N a_len s) (\<lambda>p.
     case p of
       Break ms \<Rightarrow> Inr (Break (snd ms))
     | Continue ms \<Rightarrow>
         ebind (frontier lt N maskhi masklo a_len (fst ms) (snd ms)) (\<lambda>s.
         Inr (Continue (rotate upper s))))"

text \<open>Line 86.  \<open>None\<close> stands for a loop that runs forever.\<close>

partial_function (option) main_loop ::
  "less_than \<Rightarrow> int \<Rightarrow> ulong \<Rightarrow> ulong \<Rightarrow> int \<Rightarrow> int \<Rightarrow> int \<Rightarrow> state \<Rightarrow> (error + state) option" where
  "main_loop lt N maskhi masklo a_len lower upper s =
     (if gscore s < lower \<and> upper < fscore s then
        (case loop_body lt N maskhi masklo a_len upper s of
           Inl err \<Rightarrow> Some (Inl err)
         | Inr (Break s') \<Rightarrow> Some (Inr s')
         | Inr (Continue s') \<Rightarrow> main_loop lt N maskhi masklo a_len lower upper s')
      else Some (Inr s))"

text \<open>\<^verbatim>\<open>mpoly_monomial_set(e, xexp, N); *e_score = xscore;\<close>\<close>

definition write_out :: "int \<Rightarrow> wptr \<Rightarrow> int \<Rightarrow> state \<Rightarrow> error + state" where
  "write_out N xexp xscore s =
     ebind (mpoly_monomial_set s Buf_e xexp N) (\<lambda>s. Inr (s\<lparr>e_score := xscore\<rparr>))"

text \<open>Lines 196--221.\<close>

definition final_selection :: "int \<Rightarrow> int \<Rightarrow> int \<Rightarrow> state \<Rightarrow> error + state" where
  "final_selection lower upper N s =
     (if fscore s \<le> lower then write_out N (fexp s) (fscore s) s
      else if gscore s \<ge> upper then write_out N (gexp s) (gscore s) s
      else if fscore s \<le> upper then write_out N (fexp s) (fscore s) s
      else if gscore s \<ge> lower then write_out N (gexp s) (gscore s) s
      else if fscore s - upper < lower - gscore s then write_out N (fexp s) (fscore s) s
      else write_out N (gexp s) (gscore s) s)"

text \<open>Line 51: the number of words of a packed monomial.\<close>

definition N_words :: "int \<Rightarrow> int \<Rightarrow> int" where
  "N_words ab_bits ab_elems = c_div (ab_bits * ab_elems - 1) FLINT_BITS + 1"

text \<open>The whole routine.  The result is the final store, where \<open>wmem s Buf_e\<close> is the
  caller's \<^verbatim>\<open>e\<close> and \<open>e_score s\<close> the caller's \<^verbatim>\<open>*e_score\<close>.  The calls of
  \<^verbatim>\<open>flint_free\<close> change no contents and are left out.\<close>

definition fmpz_mpoly_search_monomials ::
  "(wptr \<Rightarrow> nat \<Rightarrow> ulong) \<Rightarrow> (iptr \<Rightarrow> nat \<Rightarrow> int) \<Rightarrow> less_than \<Rightarrow>
   ulong list \<Rightarrow> int \<Rightarrow> int \<Rightarrow> int \<Rightarrow> ulong list \<Rightarrow> int \<Rightarrow> ulong list \<Rightarrow> int \<Rightarrow>
   int \<Rightarrow> int \<Rightarrow> ulong \<Rightarrow> ulong \<Rightarrow> (error + state) option" where
  "fmpz_mpoly_search_monomials wjunk ijunk lt e e_score_in lower upper a a_len b b_len
       ab_bits ab_elems maskhi masklo =
     (if \<not> a_len > 0 then Some (Inl Assertion_failed)
      else if \<not> b_len > 0 then Some (Inl Assertion_failed)
      else if \<not> lower \<le> upper then Some (Inl Assertion_failed)
      else
        let N = N_words ab_bits ab_elems in
        case set_up wjunk ijunk a_len b_len N (entry_state e e_score_in a b) of
          Inl err \<Rightarrow> Some (Inl err)
        | Inr s \<Rightarrow>
            if fscore s = gscore s then Some (write_out N (fexp s) (fscore s) s)
            else
              (case main_loop lt N maskhi masklo a_len lower upper s of
                 None \<Rightarrow> None
               | Some (Inl err) \<Rightarrow> Some (Inl err)
               | Some (Inr s') \<Rightarrow> Some (final_selection lower upper N s')))"

declare main_loop.simps [code]

subsection \<open>The state at the loop entry, in closed form\<close>

definition start_state ::
  "(wptr \<Rightarrow> nat \<Rightarrow> ulong) \<Rightarrow> (iptr \<Rightarrow> nat \<Rightarrow> int) \<Rightarrow> ulong list \<Rightarrow> int \<Rightarrow> ulong list \<Rightarrow> ulong list \<Rightarrow>
   int \<Rightarrow> int \<Rightarrow> int \<Rightarrow> state" where
  "start_state wjunk ijunk e e_score_in a b a_len b_len N =
     \<lparr>wmem = (\<lambda>p. [])(Buf_a := a, Buf_b := b, Buf_e := e,
         Buf_fexp := map2 (+) (take (nat N) a) (take (nat N) b),
         Buf_gexp := replicate (nat N) 0,
         Buf_hexp := flint_malloc (wjunk Buf_hexp) N,
         Buf_temp := flint_malloc (wjunk Buf_temp) N),
      imem = (\<lambda>p. [])(
         Buf_find := (replicate (nat a_len) b_len)[nat (a_len - 1) := b_len - 1],
         Buf_gind := flint_malloc (ijunk Buf_gind) a_len,
         Buf_hind := flint_malloc (ijunk Buf_hind) a_len),
      fexp = Buf_fexp, gexp = Buf_gexp, hexp = Buf_hexp,
      find_i = Buf_find, gind = Buf_gind, hind = Buf_hind,
      fscore = a_len * b_len, gscore = 1, hscore = 0, e_score = e_score_in\<rparr>"


subsection \<open>Input validity and the packed order\<close>

text \<open>The \<open>i\<close>-th packed monomial of an array.\<close>

definition monomial_at :: "ulong list \<Rightarrow> int \<Rightarrow> int \<Rightarrow> ulong list" where
  "monomial_at xs N i = take (nat N) (drop (nat (i * N)) xs)"

text \<open>Modelled from the spec: the order of the monomials is given by \<^verbatim>\<open>mpoly.h\<close>, which is
  not among the sources.  The spec asks for input sequences sorted strictly descending
  under an order \<open>le\<close> that is consistent with addition (\<open>x \<le> y\<close> implies
  \<open>x + z \<le> y + z\<close>); both conditions are stated for the monomials of the two arrays.\<close>

definition strictly_descending ::
  "(ulong list \<Rightarrow> ulong list \<Rightarrow> bool) \<Rightarrow> ulong list \<Rightarrow> int \<Rightarrow> int \<Rightarrow> bool" where
  "strictly_descending le xs len N \<longleftrightarrow>
     (\<forall>i j. 0 \<le> i \<and> i < j \<and> j < len \<longrightarrow>
        le (monomial_at xs N j) (monomial_at xs N i) \<and> monomial_at xs N j \<noteq> monomial_at xs N i)"

definition consistent_with_addition ::
  "(ulong list \<Rightarrow> ulong list \<Rightarrow> bool) \<Rightarrow> ulong list \<Rightarrow> int \<Rightarrow> ulong list \<Rightarrow> int \<Rightarrow> int \<Rightarrow> bool" where
  "consistent_with_addition le a a_len b b_len N \<longleftrightarrow>
     (\<forall>i i' j. 0 \<le> i \<and> i < a_len \<and> 0 \<le> i' \<and> i' < a_len \<and> 0 \<le> j \<and> j < b_len \<and>
        le (monomial_at a N i) (monomial_at a N i') \<longrightarrow>
        le (map2 (+) (monomial_at a N i) (monomial_at b N j))
           (map2 (+) (monomial_at a N i') (monomial_at b N j))) \<and>
     (\<forall>i j j'. 0 \<le> i \<and> i < a_len \<and> 0 \<le> j \<and> j < b_len \<and> 0 \<le> j' \<and> j' < b_len \<and>
        le (monomial_at b N j) (monomial_at b N j') \<longrightarrow>
        le (map2 (+) (monomial_at a N i) (monomial_at b N j))
           (map2 (+) (monomial_at a N i) (monomial_at b N j')))"

text \<open>Modelled from the spec: a packed comparison \<open>less_than(x, y, N, maskhi, masklo)\<close>, used
  where a statement below needs a concrete comparison: word \<open>N - 1\<close> is the most
  significant one, \<open>maskhi\<close> is xor-ed on it and \<open>masklo\<close> on the others, and the
  words are compared as unsigned numbers.\<close>

fun words_less :: "ulong list \<Rightarrow> ulong list \<Rightarrow> bool" where
  "words_less (x # xs) (y # ys) = (x < y \<or> x = y \<and> words_less xs ys)"
| "words_less _ _ = False"

definition masked :: "ulong list \<Rightarrow> ulong \<Rightarrow> ulong \<Rightarrow> ulong list" where
  "masked ws maskhi masklo =
     (case rev ws of [] \<Rightarrow> [] | w # rest \<Rightarrow> (w XOR maskhi) # map (\<lambda>v. v XOR masklo) rest)"

definition less_than_packed :: less_than where
  "less_than_packed x y N maskhi masklo =
     words_less (masked (take (nat N) x) maskhi masklo) (masked (take (nat N) y) maskhi masklo)"

definition le_packed :: "ulong list \<Rightarrow> ulong list \<Rightarrow> bool" where
  "le_packed x y \<longleftrightarrow> x = y \<or> words_less (rev x) (rev y)"

text \<open>The state in which the routine returns the first candidate straight from the
  loop entry: \<^verbatim>\<open>e\<close> holds \<^verbatim>\<open>fexp\<close> and \<^verbatim>\<open>*e_score\<close> is \<^verbatim>\<open>a_len * b_len\<close>.\<close>

definition first_returned ::
  "(wptr \<Rightarrow> nat \<Rightarrow> ulong) \<Rightarrow> (iptr \<Rightarrow> nat \<Rightarrow> int) \<Rightarrow> ulong list \<Rightarrow> int \<Rightarrow> ulong list \<Rightarrow> ulong list \<Rightarrow>
   int \<Rightarrow> int \<Rightarrow> int \<Rightarrow> state" where
  "first_returned wjunk ijunk e e_score_in a b a_len b_len N =
     (let s0 = start_state wjunk ijunk e e_score_in a b a_len b_len N
      in s0\<lparr>wmem := (wmem s0)(Buf_e := wmem s0 Buf_fexp @ drop (nat N) e),
            e_score := a_len * b_len\<rparr>)"

subsection \<open>Observations\<close>

text \<open>What the caller sees of a final state: \<^verbatim>\<open>*e_score\<close> and the \<open>N\<close> words of \<^verbatim>\<open>e\<close>; the
  same for the result of the routine.\<close>

definition returned :: "int \<Rightarrow> state \<Rightarrow> int \<times> ulong list" where
  "returned N s = (e_score s, take (nat N) (wmem s Buf_e))"

definition outcome :: "int \<Rightarrow> (error + state) option \<Rightarrow> (error + int \<times> ulong list) option" where
  "outcome N r = map_option (map_sum id (returned N)) r"

text \<open>The two candidates F and G of a state (score and monomial), their frontiers, and the
  candidates after a run of the loop body.\<close>

definition candidates :: "state \<Rightarrow> (int \<times> ulong list) \<times> (int \<times> ulong list)" where
  "candidates s = ((fscore s, wmem s (fexp s)), (gscore s, wmem s (gexp s)))"

definition frontiers :: "state \<Rightarrow> int list \<times> int list" where
  "frontiers s = (imem s (find_i s), imem s (gind s))"

definition after_step :: "error + state flow \<Rightarrow> error + (int \<times> ulong list) \<times> (int \<times> ulong list)" where
  "after_step r = map_sum id (\<lambda>fl. case fl of Break s \<Rightarrow> candidates s | Continue s \<Rightarrow> candidates s) r"

text \<open>From the header comment of the source: \<open>score(e)\<close> is the number of cross products
  \<open>a[i] + b[j]\<close> that are \<open>\<le> e\<close>.\<close>

definition cross_products :: "ulong list \<Rightarrow> int \<Rightarrow> ulong list \<Rightarrow> int \<Rightarrow> int \<Rightarrow> ulong list list" where
  "cross_products a a_len b b_len N =
     map (\<lambda>(i, j). map2 (+) (monomial_at a N i) (monomial_at b N j))
       (List.product [0..a_len - 1] [0..b_len - 1])"

definition score ::
  "(ulong list \<Rightarrow> ulong list \<Rightarrow> bool) \<Rightarrow> ulong list \<Rightarrow> int \<Rightarrow> ulong list \<Rightarrow> int \<Rightarrow> int \<Rightarrow> ulong list \<Rightarrow> int" where
  "score le a a_len b b_len N x =
     int (length (filter (\<lambda>p. le p x) (cross_products a a_len b b_len N)))"

text \<open>The input arrays hold what they held at the call, and no exponent pointer of the
  routine points into them.\<close>

definition inputs_kept :: "ulong list \<Rightarrow> ulong list \<Rightarrow> state \<Rightarrow> bool" where
  "inputs_kept a b s \<longleftrightarrow>
     wmem s Buf_a = a \<and> wmem s Buf_b = b \<and>
     fexp s \<notin> {Buf_a, Buf_b} \<and> gexp s \<notin> {Buf_a, Buf_b} \<and> hexp s \<notin> {Buf_a, Buf_b}"

subsection \<open>The worked example\<close>

text \<open>\<open>A = [5, 3, 1]\<close> and \<open>B = [4, 2]\<close>, one word per monomial.  What the allocation of
  \<^verbatim>\<open>gind\<close> holds is not determined by the source; these are some contents.\<close>

definition junk_000 :: "iptr \<Rightarrow> nat \<Rightarrow> int" where
  "junk_000 p k = 0"

definition junk_221 :: "iptr \<Rightarrow> nat \<Rightarrow> int" where
  "junk_221 p k = [2, 2, 1] ! k"

definition junk_222 :: "iptr \<Rightarrow> nat \<Rightarrow> int" where
  "junk_222 p k = [2, 2, 2] ! k"

definition junk_002 :: "iptr \<Rightarrow> nat \<Rightarrow> int" where
  "junk_002 p k = [0, 0, 2] ! k"

definition junk_521 :: "iptr \<Rightarrow> nat \<Rightarrow> int" where
  "junk_521 p k = [5, 2, 1] ! k"



text \<open>The comparison with its arguments exchanged: \<open>less_than(x, y)\<close> read as \<open>y < x\<close>,
  the reading under which the two assertions of lines 138--139 can hold.\<close>

definition greater_than_packed :: less_than where
  "greater_than_packed x y N maskhi masklo = less_than_packed y x N maskhi masklo"

subsection \<open>The scan at gap 1\<close>

text \<open>The cell \<open>a[i] + b[j]\<close> of the product matrix, the rows the gap-1 scan of lines
  109--121 takes for different from \<^verbatim>\<open>fexp\<close>, and the invariant of that scan.\<close>

definition cell :: "state \<Rightarrow> int \<Rightarrow> int \<Rightarrow> int \<Rightarrow> ulong list" where
  "cell s N i j = map2 (+) (monomial_at (wmem s Buf_a) N i) (monomial_at (wmem s Buf_b) N j)"

definition differs :: "state \<Rightarrow> int \<Rightarrow> int \<Rightarrow> bool" where
  "differs s N i \<longleftrightarrow>
     imem s (find_i s) ! nat i < imem s (gind s) ! nat i \<and>
     cell s N i (imem s (find_i s) ! nat i) \<noteq> take (nat N) (wmem s (fexp s))"

definition differing_rows :: "state \<Rightarrow> int \<Rightarrow> int \<Rightarrow> int list" where
  "differing_rows s N a_len = filter (differs s N) [0..a_len - 1]"

definition last_or :: "int \<Rightarrow> int list \<Rightarrow> int" where
  "last_or d xs = (if xs = [] then d else last xs)"

definition scan_inv :: "state \<Rightarrow> int \<Rightarrow> int \<Rightarrow> int \<times> state \<Rightarrow> bool" where
  "scan_inv s N j ms \<longleftrightarrow>
     fexp (snd ms) = fexp s \<and> hexp (snd ms) = hexp s \<and> find_i (snd ms) = find_i s \<and>
     gind (snd ms) = gind s \<and> hind (snd ms) = hind s \<and>
     wmem (snd ms) Buf_a = wmem s Buf_a \<and> wmem (snd ms) Buf_b = wmem s Buf_b \<and>
     wmem (snd ms) (fexp s) = wmem s (fexp s) \<and>
     imem (snd ms) (find_i s) = imem s (find_i s) \<and>
     (\<forall>k. nat j \<le> k \<longrightarrow> imem (snd ms) (gind s) ! k = imem s (gind s) ! k) \<and>
     fst ms = last_or (- 1) (filter (differs s N) [0..j - 1]) \<and>
     (fst ms = - 1 \<longrightarrow> (\<exists>w. snd ms = s\<lparr>wmem := (wmem s)(Buf_temp := w)\<rparr>)) \<and>
     (fst ms \<noteq> - 1 \<longrightarrow>
        imem (snd ms) (hind s) ! nat (fst ms) = imem s (find_i s) ! nat (fst ms) \<and>
        take (nat N) (wmem (snd ms) (hexp s)) = cell s N (fst ms) (imem s (find_i s) ! nat (fst ms)))"

text \<open>The row a pivot selection ends with.\<close>

definition pivot_row :: "(int \<times> state) flow \<Rightarrow> int" where
  "pivot_row fl = (case fl of Break ms \<Rightarrow> fst ms | Continue ms \<Rightarrow> fst ms)"

text \<open>\<open>A = [5, 3, 1]\<close> and \<open>B = [4, 2]\<close> in an array \<^verbatim>\<open>b\<close> with room for a third monomial
  (an array may be longer than its \<^verbatim>\<open>b_len\<close> monomials), with a \<^verbatim>\<open>gind\<close> that holds \<open>[3, 3, 2]\<close>.\<close>

definition junk_332 :: "iptr \<Rightarrow> nat \<Rightarrow> int" where
  "junk_332 p k = [3, 3, 2] ! k"

definition slack_entry :: state where
  "slack_entry = start_state (\<lambda>p k. 0) junk_332 [0] 0 [5, 3, 1] [4, 2, 0] 3 2 1"

section \<open>Properties\<close>

subsection \<open>Machine integers\<close>

lemma slong_id: "- (2 ^ 63) \<le> k \<Longrightarrow> k < 2 ^ 63 \<Longrightarrow> slong k = k"
  by (simp add: slong_def)

lemma slong_range: "- (2 ^ 63) \<le> slong k \<and> slong k < 2 ^ 63"
  by (simp add: slong_def)

lemma slong_wraps: "slong (2 ^ 63) = - (2 ^ 63)" "slong (- (2 ^ 63) - 1) = 2 ^ 63 - 1"
  by (simp_all add: slong_def)

subsection \<open>Loops\<close>


lemma for_up_invariant:
  assumes "for_up i n body s = Inr s'" and "P s"
    and "\<And>j t t'. i \<le> j \<Longrightarrow> j < n \<Longrightarrow> P t \<Longrightarrow> body j t = Inr t' \<Longrightarrow> P t'"
  shows "P s'"
  using assms
proof (induction i n body s rule: for_up.induct)
  case (1 i n body s)
  show ?case
  proof (cases "i < n")
    case True
    with "1.prems"(1) obtain t where t: "body i s = Inr t" and r: "for_up (i + 1) n body t = Inr s'"
      by (subst (asm) for_up.simps) (auto simp: ebind_eq_Inr)
    have "P t" using "1.prems"(3)[of i s t] "1.prems"(2) True t by simp
    show ?thesis
    proof (rule "1.IH"[OF True t r \<open>P t\<close>])
      fix j u u' assume "i + 1 \<le> j" "j < n" "P u" "body j u = Inr u'"
      then show "P u'" using "1.prems"(3)[of j u u'] by simp
    qed
  next
    case False
    with "1.prems"(1,2) show ?thesis by (subst (asm) for_up.simps) simp
  qed
qed

lemma for_down_invariant:
  assumes "for_down i body s = Inr s'" and "P s"
    and "\<And>j t t'. 0 \<le> j \<Longrightarrow> j \<le> i \<Longrightarrow> P t \<Longrightarrow> body j t = Inr t' \<Longrightarrow> P t'"
  shows "P s'"
  using assms
proof (induction i body s rule: for_down.induct)
  case (1 i body s)
  show ?case
  proof (cases "i \<ge> 0")
    case True
    with "1.prems"(1) obtain t where t: "body i s = Inr t" and r: "for_down (i - 1) body t = Inr s'"
      by (subst (asm) for_down.simps) (auto simp: ebind_eq_Inr)
    have "P t" using "1.prems"(3)[of i s t] "1.prems"(2) True t by simp
    show ?thesis
    proof (rule "1.IH"[OF True t r \<open>P t\<close>])
      fix j u u' assume "0 \<le> j" "j \<le> i - 1" "P u" "body j u = Inr u'"
      then show "P u'" using "1.prems"(3)[of j u u'] by simp
    qed
  next
    case False
    with "1.prems"(1,2) show ?thesis by (subst (asm) for_down.simps) simp
  qed
qed

lemma for_up_ind_fill:
  "0 \<le> i \<Longrightarrow> i \<le> n \<Longrightarrow> length (imem s (find_i s)) = nat n \<Longrightarrow>
   for_up i n (\<lambda>i s. ind_set s (find_i s) i c) s =
     Inr (s\<lparr>imem := (imem s)(find_i s := take (nat i) (imem s (find_i s)) @ replicate (nat (n - i)) c)\<rparr>)"
proof (induction i n "\<lambda>i s. ind_set s (find_i s) i c" s rule: for_up.induct)
  case (1 i n s)
  show ?case
  proof (cases "i < n")
    case True
    let ?t = "s\<lparr>imem := (imem s)(find_i s := (imem s (find_i s))[nat i := c])\<rparr>"
    have t: "ind_set s (find_i s) i c = Inr ?t"
      using True 1(2,4) by (simp add: ind_set_def)
    have step: "for_up (i + 1) n (\<lambda>i s. ind_set s (find_i s) i c) ?t =
       Inr (?t\<lparr>imem := (imem ?t)(find_i ?t := take (nat (i + 1)) (imem ?t (find_i ?t)) @ replicate (nat (n - (i + 1))) c)\<rparr>)"
      using 1(1)[OF True t] True 1(2,4) by simp
    have l: "take (nat (i + 1)) ((imem s (find_i s))[nat i := c]) @ replicate (nat (n - (i + 1))) c
         = take (nat i) (imem s (find_i s)) @ replicate (nat (n - i)) c"
    proof -
      have a: "nat (i + 1) = Suc (nat i)" using 1(2) by simp
      have b: "nat (n - i) = Suc (nat (n - (i + 1)))" using True by simp
      have c: "nat i < length (imem s (find_i s))" using True 1(2,4) by simp
      have "take (Suc (nat i)) ((imem s (find_i s))[nat i := c]) =
            take (nat i) (imem s (find_i s)) @ [c]"
        using c by (simp add: take_Suc_conv_app_nth)
      then show ?thesis
        unfolding a b by simp
    qed
    show ?thesis
      by (subst for_up.simps) (simp add: True t step l)
  next
    case False
    with 1(3) have "i = n" by simp
    with 1(4) show ?thesis by (subst for_up.simps) simp
  qed
qed


lemma for_up_word_fill:
  "0 \<le> i \<Longrightarrow> i \<le> n \<Longrightarrow> length (wmem s (gexp s)) = nat n \<Longrightarrow>
   for_up i n (\<lambda>i s. word_set s (gexp s) i c) s =
     Inr (s\<lparr>wmem := (wmem s)(gexp s := take (nat i) (wmem s (gexp s)) @ replicate (nat (n - i)) c)\<rparr>)"
proof (induction i n "\<lambda>i s. word_set s (gexp s) i c" s rule: for_up.induct)
  case (1 i n s)
  show ?case
  proof (cases "i < n")
    case True
    let ?t = "s\<lparr>wmem := (wmem s)(gexp s := (wmem s (gexp s))[nat i := c])\<rparr>"
    have t: "word_set s (gexp s) i c = Inr ?t"
      using True 1(2,4) by (simp add: word_set_def)
    have step: "for_up (i + 1) n (\<lambda>i s. word_set s (gexp s) i c) ?t =
       Inr (?t\<lparr>wmem := (wmem ?t)(gexp ?t := take (nat (i + 1)) (wmem ?t (gexp ?t)) @ replicate (nat (n - (i + 1))) c)\<rparr>)"
      using 1(1)[OF True t] True 1(2,4) by simp
    have l: "take (nat (i + 1)) ((wmem s (gexp s))[nat i := c]) @ replicate (nat (n - (i + 1))) c
         = take (nat i) (wmem s (gexp s)) @ replicate (nat (n - i)) c"
    proof -
      have a: "nat (i + 1) = Suc (nat i)" using 1(2) by simp
      have b: "nat (n - i) = Suc (nat (n - (i + 1)))" using True by simp
      have c: "nat i < length (wmem s (gexp s))" using True 1(2,4) by simp
      have "take (Suc (nat i)) ((wmem s (gexp s))[nat i := c]) =
            take (nat i) (wmem s (gexp s)) @ [c]"
        using c by (simp add: take_Suc_conv_app_nth)
      then show ?thesis
        unfolding a b by simp
    qed
    show ?thesis
      by (subst for_up.simps) (simp add: True t step l)
  next
    case False
    with 1(3) have "i = n" by simp
    with 1(4) show ?thesis by (subst for_up.simps) simp
  qed
qed

lemma for_up_empty: "n \<le> i \<Longrightarrow> for_up i n body s = Inr s"
  by (subst for_up.simps) simp

subsection \<open>The set-up\<close>

lemma length_flint_malloc [simp]: "length (flint_malloc junk n) = nat n"
  by (simp add: flint_malloc_def)

lemma set_up_result:
  assumes "0 < a_len" and "0 < b_len"
    and "a_len * N \<le> int (length a)" and "b_len * N \<le> int (length b)"
  shows "set_up wjunk ijunk a_len b_len N (entry_state e e_score_in a b) =
         Inr (start_state wjunk ijunk e e_score_in a b a_len b_len N)"
proof -
  have la: "N \<le> int (length a)" if "0 < N"
  proof -
    have "N * 1 \<le> N * a_len" using that assms(1) by (intro mult_left_mono) auto
    with assms(3) show ?thesis by (simp add: mult.commute)
  qed
  have lb: "N \<le> int (length b)" if "0 < N"
  proof -
    have "N * 1 \<le> N * b_len" using that assms(2) by (intro mult_left_mono) auto
    with assms(4) show ?thesis by (simp add: mult.commute)
  qed
  have la': "(a_len - 1) * N + N \<le> int (length a)" and lb': "(b_len - 1) * N + N \<le> int (length b)"
    using assms(3,4) by (simp_all add: algebra_simps)
  have pa: "0 < N \<Longrightarrow> 0 \<le> (a_len - 1) * N" and pb: "0 < N \<Longrightarrow> 0 \<le> (b_len - 1) * N"
    using assms(1,2) by auto
  show ?thesis
  proof (cases "0 < N")
    case True
    show ?thesis
      using True assms(1,2) la la' lb lb' pa pb
      apply (simp add: set_up_def entry_state_def malloc_words_def malloc_inds_def mpoly_monomial_add_def
          load_def store_def Let_def for_up_ind_fill for_up_word_fill)
      by (auto simp: ind_set_def start_state_def fun_eq_iff)
  next
    case False
    show ?thesis
      using False assms(1,2)
      apply (simp add: set_up_def entry_state_def malloc_words_def malloc_inds_def mpoly_monomial_add_def
          load_def store_def Let_def for_up_ind_fill for_up_empty flint_malloc_def)
      by (auto simp: ind_set_def start_state_def fun_eq_iff flint_malloc_def)
  qed
qed

subsection \<open>Returning the first candidate\<close>

lemma write_out_ok:
  assumes "length (wmem s p) = nat N" and "nat N \<le> length (wmem s Buf_e)"
  shows "write_out N p sc s =
     Inr (s\<lparr>wmem := (wmem s)(Buf_e := wmem s p @ drop (nat N) (wmem s Buf_e)), e_score := sc\<rparr>)"
  using assms by (auto simp: write_out_def mpoly_monomial_set_def load_def store_def)


lemma start_state_fields [simp]:
  "fscore (start_state wjunk ijunk e e_score_in a b a_len b_len N) = a_len * b_len"
  "gscore (start_state wjunk ijunk e e_score_in a b a_len b_len N) = 1"
  "fexp (start_state wjunk ijunk e e_score_in a b a_len b_len N) = Buf_fexp"
  "gexp (start_state wjunk ijunk e e_score_in a b a_len b_len N) = Buf_gexp"
  "hexp (start_state wjunk ijunk e e_score_in a b a_len b_len N) = Buf_hexp"
  "find_i (start_state wjunk ijunk e e_score_in a b a_len b_len N) = Buf_find"
  "gind (start_state wjunk ijunk e e_score_in a b a_len b_len N) = Buf_gind"
  "hind (start_state wjunk ijunk e e_score_in a b a_len b_len N) = Buf_hind"
  "wmem (start_state wjunk ijunk e e_score_in a b a_len b_len N) Buf_a = a"
  "wmem (start_state wjunk ijunk e e_score_in a b a_len b_len N) Buf_b = b"
  "wmem (start_state wjunk ijunk e e_score_in a b a_len b_len N) Buf_e = e"
  "wmem (start_state wjunk ijunk e e_score_in a b a_len b_len N) Buf_fexp =
     map2 (+) (take (nat N) a) (take (nat N) b)"
  "wmem (start_state wjunk ijunk e e_score_in a b a_len b_len N) Buf_gexp = replicate (nat N) 0"
  "imem (start_state wjunk ijunk e e_score_in a b a_len b_len N) Buf_find =
     (replicate (nat a_len) b_len)[nat (a_len - 1) := b_len - 1]"
  "imem (start_state wjunk ijunk e e_score_in a b a_len b_len N) Buf_gind =
     flint_malloc (ijunk Buf_gind) a_len"
  by (simp_all add: start_state_def)

lemma first_monomial_fits:
  assumes "0 < len" and "len * N \<le> int (length xs)"
  shows "nat N \<le> length xs"
proof (cases "0 < N")
  case True
  have "N * 1 \<le> N * len" using True assms(1) by (intro mult_left_mono) auto
  with assms(2) show ?thesis by (simp add: mult.commute)
next
  case False
  then show ?thesis by simp
qed

lemma length_monomial_at:
  assumes "0 \<le> i" and "i < len" and "len * N \<le> int (length xs)"
  shows "length (monomial_at xs N i) = nat N"
proof (cases "0 < N")
  case True
  have "(i + 1) * N \<le> len * N" using True assms(2) by (intro mult_right_mono) auto
  with assms(3) have "i * N + N \<le> int (length xs)" by (simp add: algebra_simps)
  moreover have "0 \<le> i * N" using True assms(1) by simp
  ultimately show ?thesis by (simp add: monomial_at_def)
next
  case False
  then show ?thesis by (simp add: monomial_at_def)
qed

lemma map2_add_cancel_right:
  fixes x y z :: "ulong list"
  shows "length x = length y \<Longrightarrow> length y = length z \<Longrightarrow> map2 (+) x z = map2 (+) y z \<Longrightarrow> x = y"
  by (induction x y z rule: list_induct3) auto

lemma map2_add_cancel_left:
  fixes x y z :: "ulong list"
  shows "length x = length y \<Longrightarrow> length y = length z \<Longrightarrow> map2 (+) z x = map2 (+) z y \<Longrightarrow> x = y"
  by (induction x y z rule: list_induct3) auto

lemma corners_equal_single:
  assumes "0 < a_len" and "0 < b_len"
    and "a_len * N \<le> int (length a)" and "b_len * N \<le> int (length b)"
    and anti: "\<forall>x y. le x y \<longrightarrow> le y x \<longrightarrow> x = y"
    and da: "strictly_descending le a a_len N" and db: "strictly_descending le b b_len N"
    and mono: "consistent_with_addition le a a_len b b_len N"
    and eq: "map2 (+) (monomial_at a N 0) (monomial_at b N 0) =
             map2 (+) (monomial_at a N (a_len - 1)) (monomial_at b N (b_len - 1))"
  shows "a_len = 1 \<and> b_len = 1"
proof -
  define A0 where "A0 = monomial_at a N 0"
  define A1 where "A1 = monomial_at a N (a_len - 1)"
  define B0 where "B0 = monomial_at b N 0"
  define B1 where "B1 = monomial_at b N (b_len - 1)"
  have len: "length A0 = nat N" "length A1 = nat N" "length B0 = nat N" "length B1 = nat N"
    unfolding A0_def A1_def B0_def B1_def
    using assms(1-4) length_monomial_at[of 0 a_len N a] length_monomial_at[of "a_len - 1" a_len N a]
      length_monomial_at[of 0 b_len N b] length_monomial_at[of "b_len - 1" b_len N b]
    by simp_all
  have eq': "map2 (+) A0 B0 = map2 (+) A1 B1"
    using eq unfolding A0_def A1_def B0_def B1_def .
  have m1: "le (map2 (+) A1 B1) (map2 (+) A0 B1)" if "le A1 A0"
    using mono that assms(1,2) unfolding consistent_with_addition_def A0_def A1_def B0_def B1_def
    by (elim conjE allE[of _ "a_len - 1"] allE[of _ 0] allE[of _ "b_len - 1"]) simp
  have m2: "le (map2 (+) A0 B1) (map2 (+) A0 B0)" if "le B1 B0"
    using mono that assms(1,2) unfolding consistent_with_addition_def A0_def A1_def B0_def B1_def
    by (elim conjE allE[of _ 0] allE[of _ "b_len - 1"]) simp
  have sa: "le A1 A0 \<and> A1 \<noteq> A0" if "a_len \<noteq> 1"
    using da that assms(1) unfolding strictly_descending_def A0_def A1_def
    by (elim allE[of _ 0] allE[of _ "a_len - 1"]) simp
  have sb: "le B1 B0 \<and> B1 \<noteq> B0" if "b_len \<noteq> 1"
    using db that assms(2) unfolding strictly_descending_def B0_def B1_def
    by (elim allE[of _ 0] allE[of _ "b_len - 1"]) simp
  have same_b: "B1 = B0" if "b_len = 1"
    using that unfolding B0_def B1_def by simp
  have a1: "a_len = 1"
  proof (rule ccontr)
    assume n: "a_len \<noteq> 1"
    have s1: "le (map2 (+) A1 B1) (map2 (+) A0 B1)"
      using sa[OF n] by (intro m1) simp
    have "map2 (+) A1 B1 = map2 (+) A0 B1"
    proof (cases "b_len = 1")
      case True
      show ?thesis using eq' same_b[OF True] by simp
    next
      case False
      have "le (map2 (+) A0 B1) (map2 (+) A0 B0)"
        using sb[OF False] by (intro m2) simp
      then have "le (map2 (+) A0 B1) (map2 (+) A1 B1)"
        unfolding eq' .
      with anti s1 show ?thesis by blast
    qed
    then have "A1 = A0"
      by (rule map2_add_cancel_right[rotated 2]) (simp_all add: len)
    with sa[OF n] show False by simp
  qed
  have same_a: "A1 = A0"
    using a1 unfolding A0_def A1_def by simp
  have b1: "b_len = 1"
  proof (rule ccontr)
    assume n: "b_len \<noteq> 1"
    have "map2 (+) A0 B0 = map2 (+) A0 B1"
      using eq' unfolding same_a .
    then have "B0 = B1"
      by (rule map2_add_cancel_left[rotated 2]) (simp_all add: len)
    with sb[OF n] show False by simp
  qed
  from a1 b1 show ?thesis by simp
qed

lemma words_less_asym: "words_less x y \<Longrightarrow> \<not> words_less y x"
  by (induction x y rule: words_less.induct) auto

lemma le_packed_antisym: "\<forall>x y. le_packed x y \<longrightarrow> le_packed y x \<longrightarrow> x = y"
  using words_less_asym by (auto simp: le_packed_def)

lemma returns_first_product:
  assumes "0 < a_len" and "0 < b_len" and "lower \<le> upper"
    and "a_len * N_words ab_bits ab_elems \<le> int (length a)"
    and "b_len * N_words ab_bits ab_elems \<le> int (length b)"
    and "nat (N_words ab_bits ab_elems) \<le> length e"
    and "a_len * b_len = 1 \<or> a_len * b_len \<le> upper"
  shows "fmpz_mpoly_search_monomials wjunk ijunk lt e e_score_in lower upper a a_len b b_len
          ab_bits ab_elems maskhi masklo =
         Some (Inr (first_returned wjunk ijunk e e_score_in a b a_len b_len (N_words ab_bits ab_elems)))"
proof -
  define N where "N = N_words ab_bits ab_elems"
  define s0 where "s0 = start_state wjunk ijunk e e_score_in a b a_len b_len N"
  have su: "set_up wjunk ijunk a_len b_len N (entry_state e e_score_in a b) = Inr s0"
    unfolding s0_def using assms(1,2,4,5) by (simp add: set_up_result N_def)
  have len: "length (wmem s0 (fexp s0)) = nat N"
    using first_monomial_fits[OF assms(1) assms(4)] first_monomial_fits[OF assms(2) assms(5)]
    by (simp add: s0_def N_def)
  have wo: "write_out N (fexp s0) (fscore s0) s0 =
      Inr (first_returned wjunk ijunk e e_score_in a b a_len b_len N)"
    using len assms(6) by (simp add: write_out_ok N_def first_returned_def s0_def Let_def)
  have pos: "1 \<le> a_len * b_len"
    using assms(1,2) mult_mono[of 1 a_len 1 b_len] by simp
  show ?thesis
  proof (cases "fscore s0 = gscore s0")
    case True
    then show ?thesis
      using assms(1,2,3) su wo
      by (simp add: fmpz_mpoly_search_monomials_def N_def[symmetric] del: ebind_simps)
  next
    case False
    then have big: "a_len * b_len \<le> upper" and ne: "a_len * b_len \<noteq> 1"
      using assms(7) by (auto simp: s0_def)
    have guard: "\<not> (gscore s0 < lower \<and> upper < fscore s0)"
      using big by (simp add: s0_def)
    have loop: "main_loop lt N maskhi masklo a_len lower upper s0 = Some (Inr s0)"
      using guard by (subst main_loop.simps) auto
    have sel: "final_selection lower upper N s0 = write_out N (fexp s0) (fscore s0) s0"
      using assms(3) big pos ne by (simp add: final_selection_def s0_def)
    from False show ?thesis
      using assms(1,2,3) su loop sel wo
      by (simp add: fmpz_mpoly_search_monomials_def N_def[symmetric])
  qed
qed

lemma first_returned_fields:
  assumes "0 < a_len" and "0 < b_len"
    and "a_len * N \<le> int (length a)" and "b_len * N \<le> int (length b)"
  shows "e_score (first_returned wjunk ijunk e e_score_in a b a_len b_len N) = a_len * b_len"
    and "take (nat N) (wmem (first_returned wjunk ijunk e e_score_in a b a_len b_len N) Buf_e) =
         map2 (+) (monomial_at a N 0) (monomial_at b N 0)"
    and "wmem (first_returned wjunk ijunk e e_score_in a b a_len b_len N) Buf_a = a"
    and "wmem (first_returned wjunk ijunk e e_score_in a b a_len b_len N) Buf_b = b"
  using first_monomial_fits[OF assms(1) assms(3)] first_monomial_fits[OF assms(2) assms(4)]
  by (simp_all add: first_returned_def Let_def monomial_at_def)

lemma write_out_start:
  assumes "0 < a_len" and "0 < b_len"
    and "a_len * N \<le> int (length a)" and "b_len * N \<le> int (length b)"
    and "nat N \<le> length e"
  shows "write_out N Buf_fexp (a_len * b_len) (start_state wjunk ijunk e e_score_in a b a_len b_len N) =
      Inr (first_returned wjunk ijunk e e_score_in a b a_len b_len N)"
  using first_monomial_fits[OF assms(1) assms(3)] first_monomial_fits[OF assms(2) assms(4)] assms(5)
  by (simp add: write_out_ok first_returned_def Let_def)

subsection \<open>The input arrays are never written\<close>

lemma store_kept:
  "store s p ws = Inr s' \<Longrightarrow> p \<notin> {Buf_a, Buf_b} \<Longrightarrow> inputs_kept a b s \<Longrightarrow> inputs_kept a b s'"
  by (auto simp: store_def inputs_kept_def split: if_splits)

lemma add_kept:
  "mpoly_monomial_add s p x y N = Inr s' \<Longrightarrow> p \<notin> {Buf_a, Buf_b} \<Longrightarrow> inputs_kept a b s \<Longrightarrow>
   inputs_kept a b s'"
  by (auto simp: mpoly_monomial_add_def ebind_eq_Inr dest: store_kept)

lemma word_set_kept:
  "word_set s p i v = Inr s' \<Longrightarrow> p \<notin> {Buf_a, Buf_b} \<Longrightarrow> inputs_kept a b s \<Longrightarrow> inputs_kept a b s'"
  by (auto simp: word_set_def inputs_kept_def split: if_splits)

lemma ind_set_kept:
  "ind_set s p i v = Inr s' \<Longrightarrow> inputs_kept a b s \<Longrightarrow> inputs_kept a b s'"
  by (auto simp: ind_set_def inputs_kept_def split: if_splits)

lemma inputs_kept_hexp: "inputs_kept a b s \<Longrightarrow> hexp s \<notin> {Buf_a, Buf_b}"
  and inputs_kept_fexp: "inputs_kept a b s \<Longrightarrow> fexp s \<notin> {Buf_a, Buf_b}"
  and inputs_kept_gexp: "inputs_kept a b s \<Longrightarrow> gexp s \<notin> {Buf_a, Buf_b}"
  by (simp_all add: inputs_kept_def)

lemma temp_not_input: "Buf_temp \<notin> {Buf_a, Buf_b}" and e_not_input: "Buf_e \<notin> {Buf_a, Buf_b}"
  by simp_all

lemma gap_one_step_kept:
  assumes "gap_one_step N i ms = Inr ms'" and "inputs_kept a b (snd ms)"
  shows "inputs_kept a b (snd ms')"
  using assms
  by (auto simp: gap_one_step_def Let_def ebind_eq_Inr mpoly_monomial_eq_def split: if_splits
      dest!: add_kept[OF _ temp_not_input] ind_set_kept
      dest: add_kept[OF _ inputs_kept_hexp])

lemma bisect_kept:
  "bisect maxind s = Inr s' \<Longrightarrow> inputs_kept a b s \<Longrightarrow> inputs_kept a b s'"
  by (auto simp: bisect_def ebind_eq_Inr dest: ind_set_kept)

lemma gap_scan_kept:
  assumes "for_up i n (gap_one_step N) ms = Inr ms'" and "inputs_kept a b (snd ms)"
  shows "inputs_kept a b (snd ms')"
  using assms(1) assms(2)
  by (rule for_up_invariant[where P = "\<lambda>ms. inputs_kept a b (snd ms)"]) (rule gap_one_step_kept)

lemma select_pivot_kept:
  assumes "select_pivot N a_len s = Inr fl" and "inputs_kept a b s"
  shows "case fl of Break ms \<Rightarrow> inputs_kept a b (snd ms) | Continue ms \<Rightarrow> inputs_kept a b (snd ms)"
  using assms
  by (auto simp: select_pivot_def ebind_eq_Inr split: if_splits
      dest: gap_scan_kept bisect_kept)

lemma right_scan_kept:
  "right_scan lt N maskhi masklo i j xs = Inr xs' \<Longrightarrow> inputs_kept a b (snd xs) \<Longrightarrow>
   inputs_kept a b (snd xs')"
proof (induction lt N maskhi masklo i j xs rule: right_scan.induct)
  case (1 lt N maskhi masklo i j xs)
  from "1.prems"(1) obtain f where f: "ind_get (snd xs) (find_i (snd xs)) i = Inr f"
    and rest: "(if j \<ge> f then
       ebind (mpoly_monomial_add (snd xs) Buf_temp (Buf_a, i * N) (Buf_b, j * N) N) (\<lambda>s.
       ebind (mpoly_monomial_lt lt s Buf_temp (hexp s) N maskhi masklo) (\<lambda>c.
       if c then right_scan lt N maskhi masklo i (j - 1) (j + 1, s)
       else Inr (fst xs, s)))
     else Inr xs) = Inr xs'"
    by (subst (asm) right_scan.simps) (auto simp: ebind_eq_Inr)
  show ?case
  proof (cases "j \<ge> f")
    case True
    with rest obtain s c where s: "mpoly_monomial_add (snd xs) Buf_temp (Buf_a, i * N) (Buf_b, j * N) N = Inr s"
      and c: "mpoly_monomial_lt lt s Buf_temp (hexp s) N maskhi masklo = Inr c"
      and r: "(if c then right_scan lt N maskhi masklo i (j - 1) (j + 1, s) else Inr (fst xs, s)) = Inr xs'"
      by (auto simp: ebind_eq_Inr)
    have k: "inputs_kept a b s"
      using s temp_not_input "1.prems"(2) by (rule add_kept)
    show ?thesis
    proof (cases c)
      case True
      with r have "right_scan lt N maskhi masklo i (j - 1) (j + 1, s) = Inr xs'" by simp
      from "1.IH"[OF f \<open>j \<ge> f\<close> s c True this] k show ?thesis by simp
    next
      case False
      with r k show ?thesis by auto
    qed
  next
    case False
    with rest "1.prems"(2) show ?thesis by auto
  qed
qed

lemma left_scan_kept:
  "left_scan lt N maskhi masklo i j xs = Inr xs' \<Longrightarrow> inputs_kept a b (snd xs) \<Longrightarrow>
   inputs_kept a b (snd xs')"
proof (induction lt N maskhi masklo i j xs rule: left_scan.induct)
  case (1 lt N maskhi masklo i j xs)
  from "1.prems"(1) obtain g where g: "ind_get (snd xs) (gind (snd xs)) i = Inr g"
    and rest: "(if j < g then
       ebind (mpoly_monomial_add (snd xs) Buf_temp (Buf_a, i * N) (Buf_b, j * N) N) (\<lambda>s.
       ebind (mpoly_monomial_lt lt s Buf_temp (hexp s) N maskhi masklo) (\<lambda>c.
       if c then left_scan lt N maskhi masklo i (j + 1) (j + 1, s)
       else Inr (fst xs, s)))
     else Inr xs) = Inr xs'"
    by (subst (asm) left_scan.simps) (auto simp: ebind_eq_Inr)
  show ?case
  proof (cases "j < g")
    case True
    with rest obtain s c where s: "mpoly_monomial_add (snd xs) Buf_temp (Buf_a, i * N) (Buf_b, j * N) N = Inr s"
      and c: "mpoly_monomial_lt lt s Buf_temp (hexp s) N maskhi masklo = Inr c"
      and r: "(if c then left_scan lt N maskhi masklo i (j + 1) (j + 1, s) else Inr (fst xs, s)) = Inr xs'"
      by (auto simp: ebind_eq_Inr)
    have k: "inputs_kept a b s"
      using s temp_not_input "1.prems"(2) by (rule add_kept)
    show ?thesis
    proof (cases c)
      case True
      with r have "left_scan lt N maskhi masklo i (j + 1) (j + 1, s) = Inr xs'" by simp
      from "1.IH"[OF g \<open>j < g\<close> s c True this] k show ?thesis by simp
    next
      case False
      with r k show ?thesis by auto
    qed
  next
    case False
    with rest "1.prems"(2) show ?thesis by auto
  qed
qed

lemma hscore_kept: "inputs_kept a b (s\<lparr>hscore := v\<rparr>) = inputs_kept a b s"
  by (simp add: inputs_kept_def)

lemma right_row_kept:
  assumes "right_row lt N maskhi masklo i s = Inr s'" and "inputs_kept a b s"
  shows "inputs_kept a b s'"
proof -
  from assms(1) obtain x j xs t where
    "right_scan lt N maskhi masklo i j (x, s) = Inr xs"
    and t: "ind_set (snd xs) (hind (snd xs)) i (fst xs) = Inr t"
    and s': "\<exists>v. s' = t\<lparr>hscore := v\<rparr>"
    by (auto simp: right_row_def ebind_eq_Inr) blast
  then have "inputs_kept a b (snd xs)"
    using right_scan_kept[of lt N maskhi masklo i j "(x, s)" xs a b] assms(2) by simp
  with t have "inputs_kept a b t" by (rule ind_set_kept)
  with s' show ?thesis by (auto simp: hscore_kept)
qed

lemma left_row_kept:
  assumes "left_row lt N maskhi masklo i s = Inr s'" and "inputs_kept a b s"
  shows "inputs_kept a b s'"
proof -
  from assms(1) obtain j xs t where
    "left_scan lt N maskhi masklo i j (j, s) = Inr xs"
    and t: "ind_set (snd xs) (hind (snd xs)) i (fst xs) = Inr t"
    and s': "\<exists>v. s' = t\<lparr>hscore := v\<rparr>"
    by (auto simp: left_row_def ebind_eq_Inr) blast
  then have "inputs_kept a b (snd xs)"
    using left_scan_kept[of lt N maskhi masklo i j "(j, s)" xs a b] assms(2) by simp
  with t have "inputs_kept a b t" by (rule ind_set_kept)
  with s' show ?thesis by (auto simp: hscore_kept)
qed

lemma frontier_kept:
  assumes "frontier lt N maskhi masklo a_len maxind s = Inr s'" and "inputs_kept a b s"
  shows "inputs_kept a b s'"
proof -
  from assms(1) obtain h t v u where
    t: "mpoly_monomial_add s (hexp s) (Buf_a, maxind * N) (Buf_b, h * N) N = Inr t"
    and u: "for_up (maxind + 1) a_len (right_row lt N maskhi masklo) (t\<lparr>hscore := v\<rparr>) = Inr u"
    and s': "for_down (maxind - 1) (left_row lt N maskhi masklo) u = Inr s'"
    by (auto simp: frontier_def ebind_eq_Inr Let_def)
  have "inputs_kept a b t"
    using t inputs_kept_hexp[OF assms(2)] assms(2) by (rule add_kept)
  then have "inputs_kept a b (t\<lparr>hscore := v\<rparr>)" by (simp add: hscore_kept)
  with u have "inputs_kept a b u"
    by (rule for_up_invariant) (rule right_row_kept)
  with s' show ?thesis
    by (rule for_down_invariant) (rule left_row_kept)
qed

lemma rotate_kept: "inputs_kept a b s \<Longrightarrow> inputs_kept a b (rotate upper s)"
  by (simp add: rotate_def inputs_kept_def Let_def)

lemma loop_body_kept:
  assumes "loop_body lt N maskhi masklo a_len upper s = Inr fl" and "inputs_kept a b s"
  shows "case fl of Break s' \<Rightarrow> inputs_kept a b s' | Continue s' \<Rightarrow> inputs_kept a b s'"
proof -
  from assms(1) obtain p where p: "select_pivot N a_len s = Inr p"
    and r: "(case p of Break ms \<Rightarrow> Inr (Break (snd ms))
       | Continue ms \<Rightarrow> ebind (frontier lt N maskhi masklo a_len (fst ms) (snd ms)) (\<lambda>s.
           Inr (Continue (rotate upper s)))) = Inr fl"
    by (auto simp: loop_body_def ebind_eq_Inr)
  from select_pivot_kept[OF p assms(2)] r show ?thesis
    by (cases p) (auto simp: ebind_eq_Inr dest!: frontier_kept intro: rotate_kept)
qed

lemma main_loop_kept_aux:
  assumes "main_loop lt N maskhi masklo a_len lower upper s = Some r"
  shows "inputs_kept a b s \<longrightarrow> (\<forall>s'. r = Inr s' \<longrightarrow> inputs_kept a b s')"
  using assms
proof (rule main_loop.raw_induct[rotated 1, where P = "\<lambda>lt N maskhi masklo a_len lower upper s r.
      inputs_kept a b s \<longrightarrow> (\<forall>s'. r = Inr s' \<longrightarrow> inputs_kept a b s')"])
  fix loop' :: "less_than \<Rightarrow> int \<Rightarrow> ulong \<Rightarrow> ulong \<Rightarrow> int \<Rightarrow> int \<Rightarrow> int \<Rightarrow> state \<Rightarrow> (error + state) option"
    and lt N maskhi masklo a_len lower upper s r
  assume IH: "\<And>lt N maskhi masklo a_len lower upper s r.
      loop' lt N maskhi masklo a_len lower upper s = Some r \<Longrightarrow>
      inputs_kept a b s \<longrightarrow> (\<forall>s'. r = Inr s' \<longrightarrow> inputs_kept a b s')"
    and eq: "(if gscore s < lower \<and> upper < fscore s then
        (case loop_body lt N maskhi masklo a_len upper s of
           Inl err \<Rightarrow> Some (Inl err)
         | Inr (Break s') \<Rightarrow> Some (Inr s')
         | Inr (Continue s') \<Rightarrow> loop' lt N maskhi masklo a_len lower upper s')
      else Some (Inr s)) = Some r"
  show "inputs_kept a b s \<longrightarrow> (\<forall>s'. r = Inr s' \<longrightarrow> inputs_kept a b s')"
  proof (intro impI allI)
    fix s' assume k: "inputs_kept a b s" and r: "r = Inr s'"
    show "inputs_kept a b s'"
    proof (cases "gscore s < lower \<and> upper < fscore s")
      case True
      with eq r obtain fl where fl: "loop_body lt N maskhi masklo a_len upper s = Inr fl"
        and c: "(case fl of Break t \<Rightarrow> Some (Inr t)
                 | Continue t \<Rightarrow> loop' lt N maskhi masklo a_len lower upper t) = Some (Inr s')"
        by (auto split: sum.splits)
      show ?thesis
      proof (cases fl)
        case (Break t)
        with c loop_body_kept[OF fl k] show ?thesis by simp
      next
        case (Continue t)
        with c have "loop' lt N maskhi masklo a_len lower upper t = Some (Inr s')" by simp
        from IH[OF this] loop_body_kept[OF fl k] Continue show ?thesis by simp
      qed
    next
      case False
      with eq r k show ?thesis by auto
    qed
  qed
qed

lemma write_out_kept:
  "write_out N p sc s = Inr s' \<Longrightarrow> inputs_kept a b s \<Longrightarrow> inputs_kept a b s'"
  by (auto simp: write_out_def ebind_eq_Inr inputs_kept_def mpoly_monomial_set_def store_def
      split: if_splits)

lemma final_selection_kept:
  "final_selection lower upper N s = Inr s' \<Longrightarrow> inputs_kept a b s \<Longrightarrow> inputs_kept a b s'"
  by (auto simp: final_selection_def split: if_splits dest: write_out_kept)

lemma malloc_kept:
  "p \<notin> {Buf_a, Buf_b} \<Longrightarrow> inputs_kept a b s \<Longrightarrow> inputs_kept a b (malloc_words wjunk p n s)"
  "inputs_kept a b s \<Longrightarrow> inputs_kept a b (malloc_inds ijunk q n s)"
  by (auto simp: inputs_kept_def malloc_words_def malloc_inds_def)

lemma fill_ind_kept:
  assumes "for_up i n (\<lambda>i s. ind_set s (find_i s) i c) s = Inr s'" and "inputs_kept a b s"
  shows "inputs_kept a b s'"
  using assms by (rule for_up_invariant) (rule ind_set_kept)

lemma fill_word_kept:
  assumes "for_up i n (\<lambda>i s. word_set s (gexp s) i c) s = Inr s'" and "inputs_kept a b s"
  shows "inputs_kept a b s'"
  using assms
  by (rule for_up_invariant) (auto intro: word_set_kept dest: inputs_kept_gexp)

lemma ebind_InrE:
  assumes "ebind m f = Inr y"
  obtains x where "m = Inr x" and "f x = Inr y"
  using assms by (auto simp: ebind_eq_Inr)

lemma inputs_kept_updates [simp]:
  "inputs_kept a b (s\<lparr>fscore := v\<rparr>) = inputs_kept a b s"
  "inputs_kept a b (s\<lparr>gscore := v\<rparr>) = inputs_kept a b s"
  "inputs_kept a b (s\<lparr>hscore := v\<rparr>) = inputs_kept a b s"
  "inputs_kept a b (s\<lparr>e_score := v\<rparr>) = inputs_kept a b s"
  "inputs_kept a b (s\<lparr>find_i := q\<rparr>) = inputs_kept a b s"
  "inputs_kept a b (s\<lparr>gind := q\<rparr>) = inputs_kept a b s"
  "inputs_kept a b (s\<lparr>hind := q\<rparr>) = inputs_kept a b s"
  "inputs_kept a b (s\<lparr>imem := m\<rparr>) = inputs_kept a b s"
  by (simp_all add: inputs_kept_def)

lemma inputs_kept_pointers:
  "inputs_kept a b s \<Longrightarrow> p \<notin> {Buf_a, Buf_b} \<Longrightarrow> inputs_kept a b (s\<lparr>fexp := p\<rparr>)"
  "inputs_kept a b s \<Longrightarrow> p \<notin> {Buf_a, Buf_b} \<Longrightarrow> inputs_kept a b (s\<lparr>gexp := p\<rparr>)"
  "inputs_kept a b s \<Longrightarrow> p \<notin> {Buf_a, Buf_b} \<Longrightarrow> inputs_kept a b (s\<lparr>hexp := p\<rparr>)"
  by (simp_all add: inputs_kept_def)

lemma malloc_fields [simp]:
  "fexp (malloc_words wjunk p n s) = fexp s" "gexp (malloc_words wjunk p n s) = gexp s"
  "hexp (malloc_words wjunk p n s) = hexp s"
  "fexp (malloc_inds ijunk q n s) = fexp s" "gexp (malloc_inds ijunk q n s) = gexp s"
  "hexp (malloc_inds ijunk q n s) = hexp s"
  by (simp_all add: malloc_words_def malloc_inds_def)

lemma outcome_Inr:
  "outcome N r = Some (Inr x) \<Longrightarrow> \<exists>s. r = Some (Inr s) \<and> returned N s = x"
  by (cases r) (auto simp: outcome_def map_sum_def split: sum.splits)

lemma set_up_kept:
  assumes "set_up wjunk ijunk a_len b_len N (entry_state e e_score_in a b) = Inr s"
  shows "inputs_kept a b s"
  using assms unfolding set_up_def Let_def
proof (elim ebind_InrE, goal_cases)
  case (1 s1 s2 s3 s4 s5 s6)
  have k0: "inputs_kept a b (entry_state e e_score_in a b)"
    by (simp add: inputs_kept_def entry_state_def)
  have "inputs_kept a b s1"
    using 1(1) by (rule add_kept) (simp_all add: k0 malloc_kept inputs_kept_pointers)
  with 1(2) have "inputs_kept a b s2" by (rule fill_ind_kept)
  then have "inputs_kept a b s3"
    by (intro add_kept[OF 1(3)]) (simp_all add: malloc_kept inputs_kept_pointers)
  with 1(4) have "inputs_kept a b s4" by (rule fill_word_kept)
  with 1(5) have "inputs_kept a b s5" by (rule fill_ind_kept)
  with 1(6) have "inputs_kept a b s6" by (rule ind_set_kept)
  with 1(7) show ?case
    by (auto simp: malloc_kept inputs_kept_pointers)
qed

subsection \<open>The scan at gap 1\<close>

lemma for_up_invariant_indexed:
  assumes "for_up i n body s = Inr s'" and "i \<le> n" and "P i s"
    and "\<And>j t t'. i \<le> j \<Longrightarrow> j < n \<Longrightarrow> P j t \<Longrightarrow> body j t = Inr t' \<Longrightarrow> P (j + 1) t'"
  shows "P n s'"
  using assms
proof (induction i n body s rule: for_up.induct)
  case (1 i n body s)
  show ?case
  proof (cases "i < n")
    case True
    with "1.prems"(1) obtain t where t: "body i s = Inr t" and r: "for_up (i + 1) n body t = Inr s'"
      by (subst (asm) for_up.simps) (auto simp: ebind_eq_Inr)
    have "P (i + 1) t" using "1.prems"(4)[of i s t] "1.prems"(3) True t by simp
    show ?thesis
    proof (rule "1.IH"[OF True t r _ \<open>P (i + 1) t\<close>])
      show "i + 1 \<le> n" using True by simp
      fix j u u' assume "i + 1 \<le> j" "j < n" "P j u" "body j u = Inr u'"
      then show "P (j + 1) u'" using "1.prems"(4)[of j u u'] by simp
    qed
  next
    case False
    with "1.prems"(1,2,3) show ?thesis by (subst (asm) for_up.simps) simp
  qed
qed

lemma load_Inr:
  assumes "load t p off N = Inr xs"
  shows "xs = take (nat N) (drop (nat off) (wmem t p))" and "length xs = nat N"
  using assms by (auto simp: load_def split: if_splits)

lemma add_Inr:
  assumes "mpoly_monomial_add t dst (p, i * N) (q, j * N) N = Inr t'"
  shows "t' = t\<lparr>wmem := (wmem t)(dst :=
            map2 (+) (monomial_at (wmem t p) N i) (monomial_at (wmem t q) N j) @ drop (nat N) (wmem t dst))\<rparr>"
    and "length (map2 (+) (monomial_at (wmem t p) N i) (monomial_at (wmem t q) N j)) = nat N"
proof -
  from assms obtain xs ys where xs: "load t p (i * N) N = Inr xs" and ys: "load t q (j * N) N = Inr ys"
    and st: "store t dst (map2 (+) xs ys) = Inr t'"
    by (auto simp: mpoly_monomial_add_def ebind_eq_Inr)
  have x: "xs = monomial_at (wmem t p) N i" "length xs = nat N"
    using load_Inr[OF xs] by (simp_all add: monomial_at_def)
  have y: "ys = monomial_at (wmem t q) N j" "length ys = nat N"
    using load_Inr[OF ys] by (simp_all add: monomial_at_def)
  show "length (map2 (+) (monomial_at (wmem t p) N i) (monomial_at (wmem t q) N j)) = nat N"
    using x y by simp
  then show "t' = t\<lparr>wmem := (wmem t)(dst :=
            map2 (+) (monomial_at (wmem t p) N i) (monomial_at (wmem t q) N j) @ drop (nat N) (wmem t dst))\<rparr>"
    using st x y by (auto simp: store_def split: if_splits)
qed

lemma eq_Inr:
  "mpoly_monomial_eq t x y N = Inr c \<Longrightarrow> c = (take (nat N) (wmem t x) = take (nat N) (wmem t y))"
  by (auto simp: mpoly_monomial_eq_def ebind_eq_Inr load_def split: if_splits)

lemma ind_get_Inr:
  "ind_get t p i = Inr v \<Longrightarrow> 0 \<le> i \<and> nat i < length (imem t p) \<and> v = imem t p ! nat i"
  by (auto simp: ind_get_def split: if_splits)

lemma ind_set_Inr:
  "ind_set t p i v = Inr t' \<Longrightarrow>
   0 \<le> i \<and> nat i < length (imem t p) \<and> t' = t\<lparr>imem := (imem t)(p := (imem t p)[nat i := v])\<rparr>"
  by (auto simp: ind_set_def split: if_splits)

text \<open>What one row of the gap-1 scan does to \<open>maxind\<close> and the store.\<close>

lemma gap_one_step_cases:
  assumes run: "gap_one_step N j (m, t) = Inr (m', t')" and ft: "fexp t \<noteq> Buf_temp"
  shows "0 \<le> j \<and> nat j < length (imem t (gind t)) \<and> nat j < length (imem t (find_i t)) \<and>
    length (cell t N j (imem t (find_i t) ! nat j)) = (if differs t N j then nat N else length (cell t N j (imem t (find_i t) ! nat j))) \<and>
    (if differs t N j then
       m' = j \<and> nat j < length (imem t (hind t)) \<and>
       t' = t\<lparr>wmem := (wmem t)
                 (Buf_temp := cell t N j (imem t (find_i t) ! nat j) @ drop (nat N) (wmem t Buf_temp),
                  hexp t := cell t N j (imem t (find_i t) ! nat j) @
                     drop (nat N) (((wmem t)(Buf_temp := cell t N j (imem t (find_i t) ! nat j) @ drop (nat N) (wmem t Buf_temp))) (hexp t))),
              imem := (imem t)(hind t := (imem t (hind t))[nat j := imem t (find_i t) ! nat j])\<rparr>
     else m' = m \<and> (\<exists>w. t' = t\<lparr>wmem := (wmem t)(Buf_temp := w)\<rparr>))"
proof -
  let ?f = "imem t (find_i t) ! nat j" and ?g = "imem t (gind t) ! nat j"
  let ?c = "cell t N j ?f"
  from run[unfolded gap_one_step_def Let_def snd_conv fst_conv]
  obtain g f where g: "ind_get t (gind t) j = Inr g" and f: "ind_get t (find_i t) j = Inr f"
    and rest: "(if g > f then
        ebind (mpoly_monomial_add t Buf_temp (Buf_a, j * N) (Buf_b, f * N) N) (\<lambda>s.
        ebind (mpoly_monomial_eq s Buf_temp (fexp s) N) (\<lambda>same.
        if \<not> same then
          ebind (ind_get s (find_i s) j) (\<lambda>f.
          ebind (ind_set s (hind s) j f) (\<lambda>s.
          ebind (ind_get s (hind s) j) (\<lambda>h.
          ebind (mpoly_monomial_add s (hexp s) (Buf_a, j * N) (Buf_b, h * N) N) (\<lambda>s.
          Inr (j, s)))))
        else Inr (m, s)))
      else Inr (m, t)) = Inr (m', t')"
    by (elim ebind_InrE) blast
  note G = ind_get_Inr[OF g] and F = ind_get_Inr[OF f]
  have bounds: "0 \<le> j \<and> nat j < length (imem t (gind t)) \<and> nat j < length (imem t (find_i t))"
    using G F by simp
  show ?thesis
  proof (cases "g > f")
    case False
    then have "\<not> differs t N j" using G F by (simp add: differs_def)
    moreover have "t = t\<lparr>wmem := (wmem t)(Buf_temp := wmem t Buf_temp)\<rparr>" by simp
    ultimately show ?thesis using False rest bounds by (auto simp del: fun_upd_triv)
  next
    case True
    with rest obtain t1 same where t1: "mpoly_monomial_add t Buf_temp (Buf_a, j * N) (Buf_b, f * N) N = Inr t1"
      and same: "mpoly_monomial_eq t1 Buf_temp (fexp t1) N = Inr same"
      and rest2: "(if \<not> same then
          ebind (ind_get t1 (find_i t1) j) (\<lambda>f.
          ebind (ind_set t1 (hind t1) j f) (\<lambda>s.
          ebind (ind_get s (hind s) j) (\<lambda>h.
          ebind (mpoly_monomial_add s (hexp s) (Buf_a, j * N) (Buf_b, h * N) N) (\<lambda>s.
          Inr (j, s)))))
        else Inr (m, t1)) = Inr (m', t')"
      by (auto elim!: ebind_InrE)
    have fe: "f = ?f" using F by simp
    have c_len: "length ?c = nat N"
      using add_Inr(2)[OF t1] by (simp add: cell_def fe)
    have t1_eq: "t1 = t\<lparr>wmem := (wmem t)(Buf_temp := ?c @ drop (nat N) (wmem t Buf_temp))\<rparr>"
      using add_Inr(1)[OF t1] by (simp add: cell_def fe)
    have same_eq: "same \<longleftrightarrow> ?c = take (nat N) (wmem t (fexp t))"
      using eq_Inr[OF same] ft c_len by (simp add: t1_eq)
    have d: "differs t N j \<longleftrightarrow> \<not> same"
      using True G F same_eq by (simp add: differs_def)
    show ?thesis
    proof (cases same)
      case True
      with rest2 d t1_eq bounds show ?thesis by auto
    next
      case False
      with rest2 obtain f' t2 h where f': "ind_get t1 (find_i t1) j = Inr f'"
        and t2: "ind_set t1 (hind t1) j f' = Inr t2"
        and h: "ind_get t2 (hind t2) j = Inr h"
        and t3: "mpoly_monomial_add t2 (hexp t2) (Buf_a, j * N) (Buf_b, h * N) N = Inr t'"
        and m': "m' = j"
        by (auto elim!: ebind_InrE)
      have f'e: "f' = ?f" using ind_get_Inr[OF f'] by (simp add: t1_eq)
      note T2 = ind_set_Inr[OF t2]
      have t2_eq: "t2 = t1\<lparr>imem := (imem t1)(hind t1 := (imem t1 (hind t1))[nat j := ?f])\<rparr>"
        using T2 f'e by simp
      have he: "h = ?f"
        using ind_get_Inr[OF h] T2 by (simp add: t2_eq)
      have hl: "nat j < length (imem t (hind t))"
        using T2 by (simp add: t1_eq)
      have "t' = t2\<lparr>wmem := (wmem t2)(hexp t2 := ?c @ drop (nat N) (wmem t2 (hexp t2)))\<rparr>"
        using add_Inr(1)[OF t3] by (simp add: cell_def he t2_eq t1_eq)
      then have "t' = t\<lparr>wmem := (wmem t)
                 (Buf_temp := ?c @ drop (nat N) (wmem t Buf_temp),
                  hexp t := ?c @ drop (nat N) (((wmem t)(Buf_temp := ?c @ drop (nat N) (wmem t Buf_temp))) (hexp t))),
              imem := (imem t)(hind t := (imem t (hind t))[nat j := ?f])\<rparr>"
        by (simp add: t2_eq t1_eq)
      with False d m' hl bounds c_len show ?thesis by simp
    qed
  qed
qed

lemma scan_inv_differs:
  assumes "scan_inv s N j (m, t)" and "0 \<le> j"
  shows "differs t N j = differs s N j" and "cell t N j c = cell s N j c"
    and "imem t (find_i t) ! nat j = imem s (find_i s) ! nat j"
  using assms by (simp_all add: scan_inv_def differs_def cell_def)

lemma scan_inv_step:
  assumes inv: "scan_inv s N j (m, t)" and j: "0 \<le> j"
    and step: "gap_one_step N j (m, t) = Inr (m', t')"
    and p1: "fexp s \<notin> {Buf_a, Buf_b, Buf_temp}" and p2: "hexp s \<notin> {Buf_a, Buf_b, Buf_temp}"
    and p3: "hexp s \<noteq> fexp s"
  shows "scan_inv s N (j + 1) (m', t')"
proof -
  have ft: "fexp t \<noteq> Buf_temp" using inv p1 by (simp add: scan_inv_def)
  note c = gap_one_step_cases[OF step ft]
  note d = scan_inv_differs[OF inv j]
  have up: "[0..j + 1 - 1] = [0..j - 1] @ [j]"
    using j upto_rec2[of 0 j] by simp
  let ?f = "imem s (find_i s) ! nat j"
  let ?c = "cell s N j ?f"
  have ne: "Buf_a \<noteq> hexp s" "Buf_b \<noteq> hexp s" "Buf_temp \<noteq> hexp s"
    "Buf_a \<noteq> fexp s" "Buf_b \<noteq> fexp s" "Buf_temp \<noteq> fexp s" "fexp s \<noteq> hexp s"
    using p1 p2 p3 by auto
  show ?thesis
  proof (cases "differs s N j")
    case True
    with c d have m': "m' = j" and hl: "nat j < length (imem t (hind t))" and cl: "length ?c = nat N"
      and t': "t' = t\<lparr>wmem := (wmem t)
                 (Buf_temp := ?c @ drop (nat N) (wmem t Buf_temp),
                  hexp t := ?c @ drop (nat N) (((wmem t)(Buf_temp := ?c @ drop (nat N) (wmem t Buf_temp))) (hexp t))),
              imem := (imem t)(hind t := (imem t (hind t))[nat j := ?f])\<rparr>"
      by simp_all
    have fnd: "imem t' (find_i s) = imem s (find_i s)"
    proof (cases "hind s = find_i s")
      case True
      have "(imem s (find_i s))[nat j := ?f] = imem s (find_i s)" by simp
      with True inv show ?thesis by (simp add: t' scan_inv_def)
    next
      case False
      with inv show ?thesis by (simp add: t' scan_inv_def)
    qed
    have gnd: "\<forall>k. nat (j + 1) \<le> k \<longrightarrow> imem t' (gind s) ! k = imem s (gind s) ! k"
      using inv j by (auto simp: t' scan_inv_def)
    have lst: "last_or (- 1) (filter (differs s N) [0..j + 1 - 1]) = j"
      unfolding up using True by (simp add: last_or_def)
    have hnd: "imem t' (hind s) ! nat j = ?f"
      using inv hl by (simp add: t' scan_inv_def)
    have hx: "take (nat N) (wmem t' (hexp s)) = ?c"
      using inv cl by (simp add: t' scan_inv_def)
    have jn: "j \<noteq> - 1" using j by simp
    show ?thesis
      unfolding scan_inv_def fst_conv snd_conv m' lst
      using inv p1 p2 p3 ne fnd gnd hnd hx jn
      by (simp add: scan_inv_def t')
  next
    case False
    with c d obtain w where m': "m' = m" and t': "t' = t\<lparr>wmem := (wmem t)(Buf_temp := w)\<rparr>"
      by auto
    have lst: "last_or (- 1) (filter (differs s N) [0..j + 1 - 1]) =
        last_or (- 1) (filter (differs s N) [0..j - 1])"
      unfolding up using False by simp
    show ?thesis
      unfolding scan_inv_def fst_conv snd_conv m' lst
      using inv p1 p2 p3 ne j
      by (auto simp: scan_inv_def t')
  qed
qed

lemma gap_scan_result:
  assumes run: "for_up 0 a_len (gap_one_step N) (- 1, s) = Inr ms'" and n: "0 \<le> a_len"
    and p1: "fexp s \<notin> {Buf_a, Buf_b, Buf_temp}" and p2: "hexp s \<notin> {Buf_a, Buf_b, Buf_temp}"
    and p3: "hexp s \<noteq> fexp s"
  shows "scan_inv s N a_len ms'"
  using run n
proof (rule for_up_invariant_indexed[where P = "scan_inv s N"])
  have "s = s\<lparr>wmem := (wmem s)(Buf_temp := wmem s Buf_temp)\<rparr>" by simp
  then have "\<exists>w. s = s\<lparr>wmem := (wmem s)(Buf_temp := w)\<rparr>" by (rule exI)
  then show "scan_inv s N 0 (- 1, s)"
    by (simp add: scan_inv_def last_or_def)
next
  fix j t t'
  assume "0 \<le> j" "j < a_len" "scan_inv s N j t" "gap_one_step N j t = Inr t'"
  then show "scan_inv s N (j + 1) t'"
    using scan_inv_step[of s N j "fst t" "snd t" "fst t'" "snd t'"] p1 p2 p3 by simp
qed

lemma differing_rows_bounds: "i \<in> set (differing_rows s N a_len) \<Longrightarrow> 0 \<le> i \<and> i < a_len"
  by (auto simp: differing_rows_def)

lemma last_or_differing_rows:
  "last_or (- 1) (differing_rows s N a_len) = - 1 \<longleftrightarrow> differing_rows s N a_len = []"
proof
  assume l: "last_or (- 1) (differing_rows s N a_len) = - 1"
  show "differing_rows s N a_len = []"
  proof (rule ccontr)
    assume ne: "differing_rows s N a_len \<noteq> []"
    then have "last (differing_rows s N a_len) \<in> set (differing_rows s N a_len)" by simp
    then have "0 \<le> last (differing_rows s N a_len)" using differing_rows_bounds by blast
    with l ne show False by (simp add: last_or_def)
  qed
qed (simp add: last_or_def)

subsection \<open>The pivot search\<close>

lemma pivot_row_lost:
  assumes "for_up i n (maxdiff_step s) (d, - 1) = Inr mm"
  shows "snd mm = - 1"
  using assms
proof (rule for_up_invariant[where P = "\<lambda>mm. snd mm = - 1"])
  show "snd (d, - 1 :: int) = - 1" by simp
next
  fix j and t t' :: "int \<times> int"
  assume "snd t = - 1" "maxdiff_step s j t = Inr t'"
  then show "snd t' = - 1"
    by (auto simp: maxdiff_step_def ebind_eq_Inr split: if_splits)
qed

lemma bisect_minus_one: "bisect (- 1) s = Inl Out_of_bounds"
  by (simp add: bisect_def ind_get_def)

lemma malloc3: "flint_malloc junk 3 = [junk 0, junk 1, junk 2]"
  by (simp add: flint_malloc_def eval_nat_numeral upt_rec)

lemma N_words_one: "N_words 64 1 = 1"
  by (simp add: N_words_def c_div_def FLINT_BITS_def)

section \<open>The claims\<close>

subsection \<open>C1: the range contract\<close>

text \<open>
  Claim C1 fails on the code, for \<open>A = [5, 3, 1]\<close> and \<open>B = [4, 2]\<close>.  With
  \<open>lower = upper = 1\<close> the score 1 is achievable (one cross product is \<open>\<le> a[2] + b[1] = 3\<close>),
  yet whatever the allocations hold and whatever the comparison answers, the routine
  returns the monomial 0 with \<^verbatim>\<open>*e_score = 1\<close>: the loop is not entered, the final selection
  takes G, and lines 66--67 have cleared the monomial of G.  No cross product is \<open>\<le> 0\<close>:
  the score of the returned monomial is 0.  With \<open>lower = upper = 3\<close> the score 3 is
  achievable (three cross products are \<open>\<le> a[1] + b[1] = 5\<close>), and when \<^verbatim>\<open>gind\<close> holds
  \<open>[2, 2, 1]\<close> the routine stops at gap 0 and returns the same monomial 0 with
  \<^verbatim>\<open>*e_score = 1\<close>, under either reading of the comparison.
\<close>

theorem range_contract_broken:
  "score le_packed [5, 3, 1] 3 [4, 2] 2 1 (map2 (+) [1] [2]) = 1
   \<and> outcome 1 (fmpz_mpoly_search_monomials wjunk ijunk lt [0] e_in 1 1
        [5, 3, 1] 3 [4, 2] 2 64 1 maskhi masklo) = Some (Inr (1, [0]))
   \<and> score le_packed [5, 3, 1] 3 [4, 2] 2 1 [0] = 0
   \<and> score le_packed [5, 3, 1] 3 [4, 2] 2 1 (map2 (+) [3] [2]) = 3
   \<and> outcome 1 (fmpz_mpoly_search_monomials (\<lambda>p k. 0) junk_221 less_than_packed [0] 0 3 3
        [5, 3, 1] 3 [4, 2] 2 64 1 0 0) = Some (Inr (1, [0]))
   \<and> outcome 1 (fmpz_mpoly_search_monomials (\<lambda>p k. 0) junk_221 greater_than_packed [0] 0 3 3
        [5, 3, 1] 3 [4, 2] 2 64 1 0 0) = Some (Inr (1, [0]))"
proof -
  let ?s0 = "start_state wjunk ijunk [0] e_in [5, 3, 1] [4, 2] 3 2 1"
  have su: "set_up wjunk ijunk 3 2 1 (entry_state [0] e_in [5, 3, 1] [4, 2]) = Inr ?s0"
    by (rule set_up_result) simp_all
  have loop: "main_loop lt 1 maskhi masklo 3 1 1 ?s0 = Some (Inr ?s0)"
    by (subst main_loop.simps) simp
  have "outcome 1 (fmpz_mpoly_search_monomials wjunk ijunk lt [0] e_in 1 1
        [5, 3, 1] 3 [4, 2] 2 64 1 maskhi masklo) = Some (Inr (1, [0]))"
    by (simp add: fmpz_mpoly_search_monomials_def N_words_one su loop final_selection_def
        write_out_ok outcome_def returned_def)
  moreover have "score le_packed [5, 3, 1] 3 [4, 2] 2 1 (map2 (+) [1] [2]) = 1"
    by code_simp
  moreover have "score le_packed [5, 3, 1] 3 [4, 2] 2 1 [0] = 0"
    by code_simp
  moreover have "score le_packed [5, 3, 1] 3 [4, 2] 2 1 (map2 (+) [3] [2]) = 3"
    by code_simp
  moreover have "outcome 1 (fmpz_mpoly_search_monomials (\<lambda>p k. 0) junk_221 less_than_packed [0] 0 3 3
        [5, 3, 1] 3 [4, 2] 2 64 1 0 0) = Some (Inr (1, [0]))"
    by code_simp
  moreover have "outcome 1 (fmpz_mpoly_search_monomials (\<lambda>p k. 0) junk_221 greater_than_packed [0] 0 3 3
        [5, 3, 1] 3 [4, 2] 2 64 1 0 0) = Some (Inr (1, [0]))"
    by code_simp
  ultimately show ?thesis by simp
qed

subsection \<open>C2: the final selection\<close>




subsection \<open>C3: termination of the loop\<close>

text \<open>
  Claim C3 fails on the code.  Whenever the largest gap found by lines 89--98 is neither 0
  nor 1, the iteration indexes \<^verbatim>\<open>gind\<close>, \<^verbatim>\<open>find\<close> and \<^verbatim>\<open>hind\<close> at \<open>-1\<close> (line 129) instead of
  bisecting a row: the routine does not return a result there.
\<close>

theorem bisection_out_of_bounds:
  assumes "for_up 0 a_len (maxdiff_step s) (- 1, - 1) = Inr (d, m)" and "d \<noteq> 0" and "d \<noteq> 1"
  shows "loop_body lt N maskhi masklo a_len upper s = Inl Out_of_bounds"
  using assms pivot_row_lost[OF assms(1)]
  by (simp add: loop_body_def select_pivot_def bisect_minus_one)

text \<open>For \<open>A = [5, 3, 1]\<close>, \<open>B = [4, 2]\<close>, \<open>lower = upper = 3\<close> and allocations that hold zeros
  the largest gap found is \<open>-1\<close>, and the first iteration ends in that access.  When \<^verbatim>\<open>gind\<close>
  holds \<open>[0, 0, 2]\<close> the iteration completes with a pivot, and the bracket
  \<open>fscore - gscore\<close> grows from \<open>6 - 1\<close> to \<open>6 - (-2)\<close>.\<close>

theorem loop_example:
  "for_up 0 3 (maxdiff_step (start_state (\<lambda>p k. 0) junk_000 [0] 0 [5, 3, 1] [4, 2] 3 2 1)) (- 1, - 1) =
     Inr (- 1, - 1)
   \<and> loop_body less_than_packed 1 0 0 3 3
        (start_state (\<lambda>p k. 0) junk_000 [0] 0 [5, 3, 1] [4, 2] 3 2 1) = Inl Out_of_bounds
   \<and> outcome 1 (fmpz_mpoly_search_monomials (\<lambda>p k. 0) junk_000 less_than_packed [0] 0 3 3
        [5, 3, 1] 3 [4, 2] 2 64 1 0 0) = Some (Inl Out_of_bounds)
   \<and> candidates (start_state (\<lambda>p k. 0) junk_002 [0] 0 [5, 3, 1] [4, 2] 3 2 1) = ((6, [9]), (1, [0]))
   \<and> after_step (loop_body greater_than_packed 1 0 0 3 3
        (start_state (\<lambda>p k. 0) junk_002 [0] 0 [5, 3, 1] [4, 2] 3 2 1)) = Inr ((6, [9]), (- 2, [3]))"
proof -
  have g: "for_up 0 3 (maxdiff_step (start_state (\<lambda>p k. 0) junk_000 [0] 0 [5, 3, 1] [4, 2] 3 2 1))
      (- 1, - 1) = Inr (- 1, - 1)"
    by code_simp
  have "loop_body less_than_packed 1 0 0 3 3
        (start_state (\<lambda>p k. 0) junk_000 [0] 0 [5, 3, 1] [4, 2] 3 2 1) = Inl Out_of_bounds"
    using g by (rule bisection_out_of_bounds) simp_all
  moreover have "outcome 1 (fmpz_mpoly_search_monomials (\<lambda>p k. 0) junk_000 less_than_packed [0] 0 3 3
        [5, 3, 1] 3 [4, 2] 2 64 1 0 0) = Some (Inl Out_of_bounds)"
    by code_simp
  moreover have "candidates (start_state (\<lambda>p k. 0) junk_002 [0] 0 [5, 3, 1] [4, 2] 3 2 1) =
      ((6, [9]), (1, [0]))"
    by code_simp
  moreover have "after_step (loop_body greater_than_packed 1 0 0 3 3
        (start_state (\<lambda>p k. 0) junk_002 [0] 0 [5, 3, 1] [4, 2] 3 2 1)) = Inr ((6, [9]), (- 2, [3]))"
    by code_simp
  ultimately show ?thesis using g by simp
qed

subsection \<open>C4: the pivot row\<close>

text \<open>
  Claim C4 fails on the code.  The search of lines 89--98 always ends with
  \<open>maxind = -1\<close>, which is no row: line 96 assigns \<open>-1\<close> where the row \<open>i\<close> is meant.
\<close>

theorem pivot_search_loses_row:
  assumes "for_up 0 a_len (maxdiff_step s) (- 1, - 1) = Inr mm"
  shows "snd mm = - 1"
  using assms by (rule pivot_row_lost)

text \<open>For \<open>A = [5, 3, 1]\<close>, \<open>B = [4, 2]\<close> and a \<^verbatim>\<open>gind\<close> that holds \<open>[5, 2, 1]\<close> the gaps
  \<open>gind[i] - find[i]\<close> are 3, 0, 0: row 0 alone has the largest gap, the search finds the
  gap 3 with \<open>maxind = -1\<close>, and line 129 indexes the three frontiers at \<open>-1\<close>.\<close>

theorem pivot_search_example:
  "frontiers (start_state (\<lambda>p k. 0) junk_521 [0] 0 [5, 3, 1] [4, 2] 3 2 1) = ([2, 2, 1], [5, 2, 1])
   \<and> for_up 0 3 (maxdiff_step (start_state (\<lambda>p k. 0) junk_521 [0] 0 [5, 3, 1] [4, 2] 3 2 1))
         (- 1, - 1) = Inr (3, - 1)
   \<and> outcome 1 (fmpz_mpoly_search_monomials (\<lambda>p k. 0) junk_521 less_than_packed [0] 0 3 3
        [5, 3, 1] 3 [4, 2] 2 64 1 0 0) = Some (Inl Out_of_bounds)"
proof -
  have r: "for_up 0 3 (maxdiff_step (start_state (\<lambda>p k. 0) junk_521 [0] 0 [5, 3, 1] [4, 2] 3 2 1))
         (- 1, - 1) = Inr (3, - 1)"
    by code_simp
  from pivot_search_loses_row[OF r] r
  have "for_up 0 3 (maxdiff_step (start_state (\<lambda>p k. 0) junk_521 [0] 0 [5, 3, 1] [4, 2] 3 2 1))
         (- 1, - 1) = Inr (3, - 1)" by simp
  moreover have "frontiers (start_state (\<lambda>p k. 0) junk_521 [0] 0 [5, 3, 1] [4, 2] 3 2 1) =
      ([2, 2, 1], [5, 2, 1])"
    by code_simp
  moreover have "outcome 1 (fmpz_mpoly_search_monomials (\<lambda>p k. 0) junk_521 less_than_packed [0] 0 3 3
        [5, 3, 1] 3 [4, 2] 2 64 1 0 0) = Some (Inl Out_of_bounds)"
    by code_simp
  ultimately show ?thesis by simp
qed

subsection \<open>C5: the scan at gap 1\<close>

text \<open>
  Claim C5, as amended.  When the largest gap found by lines 89--98 is 1, the routine
  scans the rows \<open>i\<close> with \<open>gind[i] > find[i]\<close> and tests whether the cell
  \<open>a[i] + b[find[i]]\<close> differs from \<^verbatim>\<open>fexp\<close>.  If at least one row differs, the pivot is
  the last (highest) such row with column \<open>find[i]\<close>, and \<^verbatim>\<open>hexp\<close> holds its cell; if no row
  differs, the loop is left through the \<^verbatim>\<open>break\<close> of line 124 and only the scratch
  monomial has changed.  (The pointers \<^verbatim>\<open>fexp\<close> and \<^verbatim>\<open>hexp\<close> are taken to name two different
  allocated buffers.)
\<close>

theorem gap_one_adopts_last_row:
  assumes gap: "for_up 0 a_len (maxdiff_step s) (- 1, - 1) = Inr (1, k)"
    and piv: "select_pivot N a_len s = Inr fl"
    and n: "0 < a_len"
    and p1: "fexp s \<notin> {Buf_a, Buf_b, Buf_temp}" and p2: "hexp s \<notin> {Buf_a, Buf_b, Buf_temp}"
    and p3: "hexp s \<noteq> fexp s"
  shows "case fl of
      Break ms \<Rightarrow>
        differing_rows s N a_len = [] \<and>
        loop_body lt N maskhi masklo a_len upper s = Inr (Break (snd ms)) \<and>
        (\<exists>w. snd ms = s\<lparr>wmem := (wmem s)(Buf_temp := w)\<rparr>)
    | Continue ms \<Rightarrow>
        differing_rows s N a_len \<noteq> [] \<and>
        fst ms = last (differing_rows s N a_len) \<and>
        imem (snd ms) (hind (snd ms)) ! nat (fst ms) = imem s (find_i s) ! nat (fst ms) \<and>
        take (nat N) (wmem (snd ms) (hexp (snd ms))) =
          cell s N (fst ms) (imem s (find_i s) ! nat (fst ms))"
proof -
  from piv gap obtain ms where scan: "for_up 0 a_len (gap_one_step N) (- 1, s) = Inr ms"
    and fl: "fl = (if fst ms = - 1 then Break ms else Continue ms)"
    by (auto simp: select_pivot_def ebind_eq_Inr split: if_splits)
  have inv: "scan_inv s N a_len ms"
    using scan n p1 p2 p3 by (intro gap_scan_result) simp_all
  then have m: "fst ms = last_or (- 1) (differing_rows s N a_len)"
    by (simp add: scan_inv_def differing_rows_def)
  show ?thesis
  proof (cases "fst ms = - 1")
    case True
    then have "differing_rows s N a_len = []"
      using m last_or_differing_rows by simp
    moreover have "loop_body lt N maskhi masklo a_len upper s = Inr (Break (snd ms))"
      using piv fl True by (simp add: loop_body_def)
    moreover have "\<exists>w. snd ms = s\<lparr>wmem := (wmem s)(Buf_temp := w)\<rparr>"
      using inv True by (simp add: scan_inv_def)
    ultimately show ?thesis using fl True by simp
  next
    case False
    then have ne: "differing_rows s N a_len \<noteq> []"
      using m last_or_differing_rows by metis
    with m have c: "fst ms = last (differing_rows s N a_len)" by (simp add: last_or_def)
    have a: "imem (snd ms) (hind (snd ms)) ! nat (fst ms) = imem s (find_i s) ! nat (fst ms)"
      and b: "take (nat N) (wmem (snd ms) (hexp (snd ms))) =
          cell s N (fst ms) (imem s (find_i s) ! nat (fst ms))"
      using inv False by (auto simp: scan_inv_def)
    from False fl have "fl = Continue ms" by simp
    with ne a b c show ?thesis by simp
  qed
qed

text \<open>Three rows differ, the pivot is row 2 with column 1, and \<^verbatim>\<open>hexp\<close> holds
  \<open>a[2] + b[1] = 3\<close>.\<close>

theorem gap_one_adopts_last_row_witness:
  "\<exists>fl. select_pivot 1 3 slack_entry = Inr fl \<and> differing_rows slack_entry 1 3 = [0, 1, 2] \<and>
     (case fl of Break ms \<Rightarrow> False
      | Continue ms \<Rightarrow> fst ms = 2 \<and> imem (snd ms) (hind (snd ms)) ! 2 = 1 \<and>
          take 1 (wmem (snd ms) (hexp (snd ms))) = [3])"
proof -
  have g: "for_up 0 3 (maxdiff_step slack_entry) (- 1, - 1) = Inr (1, - 1)"
    by code_simp
  have "map_sum id pivot_row (select_pivot 1 3 slack_entry) = Inr 2"
    by code_simp
  then obtain fl where fl: "select_pivot 1 3 slack_entry = Inr fl"
    by (cases "select_pivot 1 3 slack_entry") auto
  have rows: "differing_rows slack_entry 1 3 = [0, 1, 2]"
    by code_simp
  have col: "imem slack_entry (find_i slack_entry) ! nat 2 = 1"
    and c: "cell slack_entry 1 2 1 = [3]"
    by code_simp+
  have p: "fexp slack_entry \<notin> {Buf_a, Buf_b, Buf_temp}" "hexp slack_entry \<notin> {Buf_a, Buf_b, Buf_temp}"
    "hexp slack_entry \<noteq> fexp slack_entry"
    by (simp_all add: slack_entry_def)
  have 3: "(0::int) < 3" by simp
  from gap_one_adopts_last_row[OF g fl 3 p] rows col c fl show ?thesis
    by (cases fl) (auto simp: numeral_2_eq_2)
qed

text \<open>
  Claim C5, as stated, fails.  In the state the set-up leaves for \<open>A = [5, 3, 1]\<close>,
  \<open>B = [4, 2]\<close> (in an array with room for a third monomial) and a \<^verbatim>\<open>gind\<close> that holds
  \<open>[3, 3, 2]\<close>, the largest gap is 1 and the rows 0, 1 and 2 all differ from \<^verbatim>\<open>fexp\<close>; the
  pivot selection ends with row 2, not with row 0.
\<close>

theorem gap_one_adopts_first_row_counterexample:
  "map_sum id (\<lambda>s. (frontiers s, for_up 0 3 (maxdiff_step s) (- 1, - 1), differing_rows s 1 3,
        map_sum id pivot_row (select_pivot 1 3 s)))
     (set_up (\<lambda>p k. 0) junk_332 3 2 1 (entry_state [0] 0 [5, 3, 1] [4, 2, 0])) =
   Inr (([2, 2, 1], [3, 3, 2]), Inr (1, - 1), [0, 1, 2], Inr 2)"
  by code_simp

subsection \<open>C6: the state at the loop entry\<close>

text \<open>
  Claim C6 fails on the code.  For every valid input the set-up leaves F with score
  \<open>a_len * b_len\<close> and monomial \<open>a[0] + b[0]\<close>, but with the frontier \<open>b_len\<close> in every row
  and \<open>b_len - 1\<close> in the last, not 0 in every row; it leaves G with score 1, but with
  the monomial cleared to 0, not \<open>a[a_len - 1] + b[b_len - 1]\<close>, and with the frontier the
  allocation held.  Lines 66--70 write \<^verbatim>\<open>gexp[i] = 0\<close> and \<^verbatim>\<open>find\<close> where the comments and
  lines 57--59 call for \<^verbatim>\<open>gind\<close>.
\<close>

theorem set_up_frontiers:
  assumes "0 < a_len" and "0 < b_len"
    and "a_len * N \<le> int (length a)" and "b_len * N \<le> int (length b)"
  shows "\<exists>s. set_up wjunk ijunk a_len b_len N (entry_state e e_score_in a b) = Inr s \<and>
    candidates s = ((a_len * b_len, map2 (+) (monomial_at a N 0) (monomial_at b N 0)),
                    (1, replicate (nat N) 0)) \<and>
    frontiers s = ((replicate (nat a_len) b_len)[nat (a_len - 1) := b_len - 1],
                   flint_malloc (ijunk Buf_gind) a_len)"
proof -
  have "set_up wjunk ijunk a_len b_len N (entry_state e e_score_in a b) =
      Inr (start_state wjunk ijunk e e_score_in a b a_len b_len N)"
    using assms by (rule set_up_result)
  then show ?thesis
    by (simp add: candidates_def frontiers_def monomial_at_def)
qed

text \<open>For \<open>A = [5, 3, 1]\<close>, \<open>B = [4, 2]\<close> and a \<^verbatim>\<open>gind\<close> allocation that holds \<open>[5, 2, 1]\<close>: F is
  \<open>(6, 9)\<close> with frontier \<open>[2, 2, 1]\<close>, G is \<open>(1, 0)\<close> with frontier \<open>[5, 2, 1]\<close>.\<close>

theorem set_up_example:
  "map_sum id (\<lambda>s. (candidates s, frontiers s))
     (set_up (\<lambda>p k. 0) junk_521 3 2 1 (entry_state [0] 0 [5, 3, 1] [4, 2])) =
   Inr (((6, [9]), (1, [0])), ([2, 2, 1], [5, 2, 1]))"
proof -
  have h: "(0::int) < 3" "(0::int) < 2" "3 * 1 \<le> int (length [5, 3, 1 :: ulong])"
    "2 * 1 \<le> int (length [4, 2 :: ulong])"
    by simp_all
  from set_up_frontiers[OF h, of "\<lambda>p k. 0" junk_521 "[0]" 0]
  obtain s where "set_up (\<lambda>p k. 0) junk_521 3 2 1 (entry_state [0] 0 [5, 3, 1] [4, 2]) = Inr s"
    and "candidates s = ((3 * 2, map2 (+) (monomial_at [5, 3, 1] 1 0) (monomial_at [4, 2] 1 0)),
                    (1, replicate (nat 1) 0))"
    and "frontiers s = ((replicate (nat 3) 2)[nat (3 - 1) := 2 - 1], flint_malloc (junk_521 Buf_gind) 3)"
    by blast
  then show ?thesis
    by (simp add: monomial_at_def malloc3 junk_521_def eval_nat_numeral)
qed

subsection \<open>C7: the early exit\<close>

text \<open>
  Claim C7.  For every valid input (\<open>a_len > 0\<close>, \<open>b_len > 0\<close>, \<open>lower \<le> upper\<close>, both
  arrays strictly descending under an antisymmetric order consistent with addition) in
  which \<open>a[0] + b[0]\<close> equals \<open>a[a_len - 1] + b[b_len - 1]\<close>: the test
  \<open>fscore = gscore\<close> of line 78 succeeds in the state the set-up leaves, the routine
  returns there, without the main loop, and the output is that monomial with score
  \<open>a_len * b_len\<close>.
\<close>

theorem equal_corners_return_at_once:
  assumes "0 < a_len" and "0 < b_len" and "lower \<le> upper"
    and "a_len * N_words ab_bits ab_elems \<le> int (length a)"
    and "b_len * N_words ab_bits ab_elems \<le> int (length b)"
    and "nat (N_words ab_bits ab_elems) \<le> length e"
    and "\<forall>x y. le x y \<longrightarrow> le y x \<longrightarrow> x = y"
    and "strictly_descending le a a_len (N_words ab_bits ab_elems)"
    and "strictly_descending le b b_len (N_words ab_bits ab_elems)"
    and "consistent_with_addition le a a_len b b_len (N_words ab_bits ab_elems)"
    and "map2 (+) (monomial_at a (N_words ab_bits ab_elems) 0)
                  (monomial_at b (N_words ab_bits ab_elems) 0) =
         map2 (+) (monomial_at a (N_words ab_bits ab_elems) (a_len - 1))
                  (monomial_at b (N_words ab_bits ab_elems) (b_len - 1))"
  shows "\<exists>s0 s'.
      set_up wjunk ijunk a_len b_len (N_words ab_bits ab_elems) (entry_state e e_score_in a b) = Inr s0
    \<and> fscore s0 = gscore s0
    \<and> fmpz_mpoly_search_monomials wjunk ijunk lt e e_score_in lower upper a a_len b b_len
          ab_bits ab_elems maskhi masklo =
        Some (write_out (N_words ab_bits ab_elems) (fexp s0) (fscore s0) s0)
    \<and> write_out (N_words ab_bits ab_elems) (fexp s0) (fscore s0) s0 = Inr s'
    \<and> e_score s' = a_len * b_len
    \<and> take (nat (N_words ab_bits ab_elems)) (wmem s' Buf_e) =
        map2 (+) (monomial_at a (N_words ab_bits ab_elems) 0)
                 (monomial_at b (N_words ab_bits ab_elems) 0)"
proof -
  let ?N = "N_words ab_bits ab_elems"
  let ?s0 = "start_state wjunk ijunk e e_score_in a b a_len b_len ?N"
  let ?s' = "first_returned wjunk ijunk e e_score_in a b a_len b_len ?N"
  have one: "a_len = 1 \<and> b_len = 1"
    using assms(1,2,4,5,7-11) by (rule corners_equal_single)
  have "set_up wjunk ijunk a_len b_len ?N (entry_state e e_score_in a b) = Inr ?s0"
    using assms(1,2,4,5) by (rule set_up_result)
  moreover have "fscore ?s0 = gscore ?s0"
    using one by simp
  moreover have wo: "write_out ?N (fexp ?s0) (fscore ?s0) ?s0 = Inr ?s'"
    using write_out_start[OF assms(1,2,4,5,6)] by simp
  moreover have "fmpz_mpoly_search_monomials wjunk ijunk lt e e_score_in lower upper a a_len b b_len
          ab_bits ab_elems maskhi masklo = Some (write_out ?N (fexp ?s0) (fscore ?s0) ?s0)"
    unfolding wo using assms(1-6) one by (intro returns_first_product) simp_all
  moreover note first_returned_fields(1,2)[OF assms(1,2,4,5), of wjunk ijunk e e_score_in]
  ultimately show ?thesis by blast
qed

text \<open>One monomial in each array: \<open>A = [5]\<close>, \<open>B = [4]\<close>.\<close>

theorem equal_corners_return_at_once_witness:
  "(0::int) < 1 \<and> (1::int) \<le> 1
   \<and> 1 * N_words 64 1 \<le> int (length [5 :: ulong])
   \<and> 1 * N_words 64 1 \<le> int (length [4 :: ulong])
   \<and> nat (N_words 64 1) \<le> length [0 :: ulong]
   \<and> strictly_descending le_packed [5] 1 (N_words 64 1)
   \<and> strictly_descending le_packed [4] 1 (N_words 64 1)
   \<and> consistent_with_addition le_packed [5] 1 [4] 1 (N_words 64 1)
   \<and> map2 (+) (monomial_at [5] (N_words 64 1) 0) (monomial_at [4] (N_words 64 1) 0) =
       map2 (+) (monomial_at [5] (N_words 64 1) (1 - 1)) (monomial_at [4] (N_words 64 1) (1 - 1))
   \<and> (\<exists>s'. fmpz_mpoly_search_monomials (\<lambda>p k. 0) (\<lambda>p k. 0) less_than_packed [0] 0 1 1
              [5] 1 [4] 1 64 1 0 0 = Some (Inr s')
          \<and> e_score s' = 1 \<and> take 1 (wmem s' Buf_e) = [9])"
proof -
  have n: "N_words 64 1 = 1"
    by (simp add: N_words_def c_div_def FLINT_BITS_def)
  have h: "(0::int) < 1" "(0::int) < 1" "(1::int) \<le> 1"
    "1 * N_words 64 1 \<le> int (length [5 :: ulong])"
    "1 * N_words 64 1 \<le> int (length [4 :: ulong])"
    "nat (N_words 64 1) \<le> length [0 :: ulong]"
    by (simp_all add: n)
  have sd: "strictly_descending le_packed [5] 1 (N_words 64 1)"
    "strictly_descending le_packed [4] 1 (N_words 64 1)"
    by (auto simp: strictly_descending_def)
  have ca: "consistent_with_addition le_packed [5] 1 [4] 1 (N_words 64 1)"
    unfolding consistent_with_addition_def
  proof (intro conjI allI impI; elim conjE)
    fix i i' j :: int
    assume "0 \<le> i" "i < 1" "0 \<le> i'" "i' < 1"
    then have "i = i'" by simp
    then show "le_packed (map2 (+) (monomial_at [5] (N_words 64 1) i) (monomial_at [4] (N_words 64 1) j))
       (map2 (+) (monomial_at [5] (N_words 64 1) i') (monomial_at [4] (N_words 64 1) j))"
      by (simp add: le_packed_def)
  next
    fix i j j' :: int
    assume "0 \<le> j" "j < 1" "0 \<le> j'" "j' < 1"
    then have "j = j'" by simp
    then show "le_packed (map2 (+) (monomial_at [5] (N_words 64 1) i) (monomial_at [4] (N_words 64 1) j))
       (map2 (+) (monomial_at [5] (N_words 64 1) i) (monomial_at [4] (N_words 64 1) j'))"
      by (simp add: le_packed_def)
  qed
  have eq: "map2 (+) (monomial_at [5] (N_words 64 1) 0) (monomial_at [4] (N_words 64 1) 0) =
       map2 (+) (monomial_at [5] (N_words 64 1) (1 - 1)) (monomial_at [4] (N_words 64 1) (1 - 1))"
    by simp
  show ?thesis
    using h sd ca eq
      equal_corners_return_at_once[OF h le_packed_antisym sd ca eq,
        where wjunk="\<lambda>p k. 0" and ijunk="\<lambda>p k. 0"
        and e_score_in=0 and lt=less_than_packed and maskhi=0 and masklo=0]
    by (auto simp: n monomial_at_def)
qed

subsection \<open>C8: the input arrays\<close>

text \<open>
  Claim C8.  Whenever the routine returns, the arrays \<^verbatim>\<open>a\<close> and \<^verbatim>\<open>b\<close> hold what they held
  at the call: every write of the routine goes to \<^verbatim>\<open>e\<close> or to a buffer it allocated, also
  after the pointer rotations of lines 183--192.
\<close>

theorem inputs_never_written:
  assumes "fmpz_mpoly_search_monomials wjunk ijunk lt e e_score_in lower upper a a_len b b_len
             ab_bits ab_elems maskhi masklo = Some (Inr s')"
  shows "wmem s' Buf_a = a \<and> wmem s' Buf_b = b"
proof -
  let ?N = "N_words ab_bits ab_elems"
  from assms obtain s where s: "set_up wjunk ijunk a_len b_len ?N (entry_state e e_score_in a b) = Inr s"
    and r: "(if fscore s = gscore s then Some (write_out ?N (fexp s) (fscore s) s)
         else (case main_loop lt ?N maskhi masklo a_len lower upper s of
                 None \<Rightarrow> None
               | Some (Inl err) \<Rightarrow> Some (Inl err)
               | Some (Inr t) \<Rightarrow> Some (final_selection lower upper ?N t))) = Some (Inr s')"
    by (auto simp: fmpz_mpoly_search_monomials_def Let_def split: if_splits sum.splits)
  have k: "inputs_kept a b s" using s by (rule set_up_kept)
  have "inputs_kept a b s'"
  proof (cases "fscore s = gscore s")
    case True
    with r k show ?thesis by (auto dest: write_out_kept)
  next
    case False
    with r obtain t where t: "main_loop lt ?N maskhi masklo a_len lower upper s = Some (Inr t)"
      and f: "final_selection lower upper ?N t = Inr s'"
      by (auto split: option.splits sum.splits)
    from main_loop_kept_aux[OF t, of a b] k have "inputs_kept a b t" by simp
    with f show ?thesis by (rule final_selection_kept)
  qed
  then show ?thesis by (simp add: inputs_kept_def)
qed

text \<open>A run with one full iteration of the loop.\<close>

theorem inputs_never_written_witness:
  "\<exists>s'. fmpz_mpoly_search_monomials (\<lambda>p k. 0) junk_222 greater_than_packed [0] 0 3 3
        [5, 3, 1] 3 [4, 2] 2 64 1 0 0 = Some (Inr s')
      \<and> wmem s' Buf_a = [5, 3, 1] \<and> wmem s' Buf_b = [4, 2] \<and> returned 1 s' = (2, [3])"
proof -
  have "outcome 1 (fmpz_mpoly_search_monomials (\<lambda>p k. 0) junk_222 greater_than_packed [0] 0 3 3
        [5, 3, 1] 3 [4, 2] 2 64 1 0 0) = Some (Inr (2, [3]))"
    by code_simp
  then obtain s' where s': "fmpz_mpoly_search_monomials (\<lambda>p k. 0) junk_222 greater_than_packed [0] 0 3 3
        [5, 3, 1] 3 [4, 2] 2 64 1 0 0 = Some (Inr s')" and r: "returned 1 s' = (2, [3])"
    using outcome_Inr by blast
  from inputs_never_written[OF s'] s' r show ?thesis by blast
qed

subsection \<open>C9: the worked example\<close>


subsection \<open>C10: an upper bound that covers all products\<close>

text \<open>
  Claim C10.  For every valid input (\<open>a_len > 0\<close>, \<open>b_len > 0\<close>, \<open>lower \<le> upper\<close>, arrays
  that hold \<open>a_len\<close> and \<open>b_len\<close> monomials, a buffer \<open>e\<close> of at least \<open>N\<close> words) with
  \<open>upper \<ge> a_len * b_len\<close>: the loop condition is false in the state the set-up leaves,
  so the loop body never runs, and the routine returns the monomial \<open>a[0] + b[0]\<close> with
  score \<open>a_len * b_len\<close>, whatever the uninitialised buffers hold.
\<close>

theorem upper_covers_all_products:
  assumes "0 < a_len" and "0 < b_len" and "lower \<le> upper"
    and "a_len * N_words ab_bits ab_elems \<le> int (length a)"
    and "b_len * N_words ab_bits ab_elems \<le> int (length b)"
    and "nat (N_words ab_bits ab_elems) \<le> length e"
    and "a_len * b_len \<le> upper"
  shows "\<exists>s0 s'.
      set_up wjunk ijunk a_len b_len (N_words ab_bits ab_elems) (entry_state e e_score_in a b) = Inr s0
    \<and> \<not> (gscore s0 < lower \<and> upper < fscore s0)
    \<and> fmpz_mpoly_search_monomials wjunk ijunk lt e e_score_in lower upper a a_len b b_len
          ab_bits ab_elems maskhi masklo = Some (Inr s')
    \<and> e_score s' = a_len * b_len
    \<and> take (nat (N_words ab_bits ab_elems)) (wmem s' Buf_e) =
        map2 (+) (monomial_at a (N_words ab_bits ab_elems) 0)
                 (monomial_at b (N_words ab_bits ab_elems) 0)"
proof -
  let ?N = "N_words ab_bits ab_elems"
  let ?s0 = "start_state wjunk ijunk e e_score_in a b a_len b_len ?N"
  let ?s' = "first_returned wjunk ijunk e e_score_in a b a_len b_len ?N"
  have "set_up wjunk ijunk a_len b_len ?N (entry_state e e_score_in a b) = Inr ?s0"
    using assms(1,2,4,5) by (rule set_up_result)
  moreover have "\<not> (gscore ?s0 < lower \<and> upper < fscore ?s0)"
    using assms(7) by simp
  moreover have "fmpz_mpoly_search_monomials wjunk ijunk lt e e_score_in lower upper a a_len b b_len
          ab_bits ab_elems maskhi masklo = Some (Inr ?s')"
    using assms by (intro returns_first_product) simp_all
  moreover note first_returned_fields(1,2)[OF assms(1,2,4,5), of wjunk ijunk e e_score_in]
  ultimately show ?thesis by blast
qed

text \<open>\<open>A = [5, 3, 1]\<close>, \<open>B = [4, 2]\<close>, \<open>lower = 3\<close>, \<open>upper = 6\<close>.\<close>

theorem upper_covers_all_products_witness:
  "(0::int) < 3 \<and> (0::int) < 2 \<and> (3::int) \<le> 6
   \<and> 3 * N_words 64 1 \<le> int (length [5, 3, 1 :: ulong])
   \<and> 2 * N_words 64 1 \<le> int (length [4, 2 :: ulong])
   \<and> nat (N_words 64 1) \<le> length [0 :: ulong]
   \<and> (3::int) * 2 \<le> 6
   \<and> (\<exists>s'. fmpz_mpoly_search_monomials (\<lambda>p k. 0) (\<lambda>p k. 0) less_than_packed [0] 0 3 6
              [5, 3, 1] 3 [4, 2] 2 64 1 0 0 = Some (Inr s')
          \<and> e_score s' = 6 \<and> take 1 (wmem s' Buf_e) = [9])"
proof -
  have n: "N_words 64 1 = 1"
    by (simp add: N_words_def c_div_def FLINT_BITS_def)
  have h: "(0::int) < 3" "(0::int) < 2" "(3::int) \<le> 6"
    "3 * N_words 64 1 \<le> int (length [5, 3, 1 :: ulong])"
    "2 * N_words 64 1 \<le> int (length [4, 2 :: ulong])"
    "nat (N_words 64 1) \<le> length [0 :: ulong]" "(3::int) * 2 \<le> 6"
    by (simp_all add: n)
  show ?thesis
    using h upper_covers_all_products[OF h, where wjunk="\<lambda>p k. 0" and ijunk="\<lambda>p k. 0"
        and e_score_in=0 and lt=less_than_packed and maskhi=0 and masklo=0]
    by (auto simp: n monomial_at_def)
qed

end
